theory Spec2Isabelle
  imports Complex_Main
begin

section \<open>Numerical integration (mathUtils.ts, integrate)\<close>

text \<open>
  The engine computes on JavaScript numbers. They are modelled as the real numbers:
  every arithmetic operation is the exact one, so rounding, overflow to Infinity and
  NaN are outside the model (the section on double arithmetic below adds overflow for
  the two lines that compute \<open>nonlinCost\<close>). Loop counters and the number of
  intervals are naturals.
  A JavaScript division by zero gives Infinity or NaN where HOL gives 0; the engine
  divides by \<open>n\<close>, by \<open>k * k\<close> and by \<open>sigma\<close>, its callers pass \<open>n = 200\<close> and
  \<open>n = 50\<close>, and its domain is \<open>k > 0\<close> and \<open>sigma > 0\<close>, which the theorems on
  \<open>calculateCosts\<close> assume.

  The \<open>for\<close> loop of \<open>integrate\<close> runs \<open>i\<close> from 1 while \<open>i < n\<close>, adding
  \<open>func (min + i * h)\<close> with weight 2 at even \<open>i\<close> and weight 4 at odd \<open>i\<close>.
\<close>

function integrate_loop ::
  "(real \<Rightarrow> real) \<Rightarrow> real \<Rightarrow> real \<Rightarrow> nat \<Rightarrow> nat \<Rightarrow> real \<Rightarrow> real" where
  "integrate_loop func mn h n i acc =
     (if i < n
      then integrate_loop func mn h n (i + 1)
             (acc + func (mn + real i * h) * (if i mod 2 = 0 then 2 else 4))
      else acc)"
  by pat_completeness auto
termination
  by (relation "measure (\<lambda>(func, mn, h, n, i, acc). n - i)") auto

declare integrate_loop.simps [simp del]

definition integrate :: "(real \<Rightarrow> real) \<Rightarrow> real \<Rightarrow> real \<Rightarrow> nat \<Rightarrow> real" where
  "integrate func mn mx n =
     (let h = (mx - mn) / real n;
          acc = func mn + func mx
      in (integrate_loop func mn h n 1 acc * h) / 3)"

section \<open>The auxiliary function h(a) (mathUtils.ts, calculateH)\<close>

definition calculateH :: "real \<Rightarrow> real" where
  "calculateH a =
     (if a = 0 then 0
      else let integrand = (\<lambda>y. exp (- 0.5 * y * y) / cosh (a * y));
               integralVal = integrate integrand (- 10) 10 200
           in a * a * exp (- 0.5 * a * a) * integralVal)"

section \<open>The optimal affine gain (mathUtils.ts, solveAffineLambda)\<close>

text \<open>
  The closure \<open>f\<close> of \<open>solveAffineLambda\<close>; \<open>Math.pow (1 + t * t, 2)\<close> is the square.
  The domain of the engine is \<open>k > 0\<close> and \<open>sigma > 0\<close>; the divisions by \<open>k * k\<close>
  and by \<open>sigma\<close> are the real ones there.
\<close>

definition solveAffineLambda_f :: "real \<Rightarrow> real \<Rightarrow> real \<Rightarrow> real" where
  "solveAffineLambda_f k sigma t = (t - sigma) * (1 + t * t) ^ 2 + t / (k * k)"

text \<open>
  The \<open>while (iter < 100)\<close> loop on the variables \<open>low\<close>, \<open>high\<close>, \<open>iter\<close>, \<open>mid\<close>.
  The function returns the variables as the loop leaves them (through \<open>break\<close> or
  through the failed loop test).
\<close>

function bisect_loop ::
  "(real \<Rightarrow> real) \<Rightarrow> real \<Rightarrow> real \<Rightarrow> nat \<Rightarrow> real \<Rightarrow> real \<times> real \<times> nat \<times> real" where
  "bisect_loop f low high iter mid =
     (if iter < 100
      then (let mid' = (low + high) / 2
            in if \<bar>f mid'\<bar> < 1 / 1000000 then (low, high, iter, mid')
               else if f low * f mid' < 0 then bisect_loop f low mid' (iter + 1) mid'
               else bisect_loop f mid' high (iter + 1) mid')
      else (low, high, iter, mid))"
  by pat_completeness auto
termination
  by (relation "measure (\<lambda>(f, low, high, iter, mid). 100 - iter)") auto

declare bisect_loop.simps [simp del]

definition solveAffineLambda :: "real \<Rightarrow> real \<Rightarrow> real" where
  "solveAffineLambda k sigma =
     (let f = solveAffineLambda_f k sigma
      in if f 0 * f sigma > 0 then 0
         else (case bisect_loop f 0 sigma 0 0 of (low, high, iter, mid) \<Rightarrow> mid / sigma))"

section \<open>The lower bound (mathUtils.ts, phi, goldenSectionSearch, calculateVk, calculateLowerBound)\<close>

definition phi :: "real \<Rightarrow> real" where
  "phi x = (1 / sqrt (2 * pi)) * exp (- 0.5 * x * x)"

definition GR :: real where
  "GR = (sqrt 5 - 1) / 2"

text \<open>
  The loop \<open>while (Math.abs (b - a) > tol)\<close> of \<open>goldenSectionSearch\<close> on the variables
  \<open>a\<close>, \<open>b\<close>, \<open>c\<close>, \<open>d\<close>. Nothing bounds the number of its iterations, so it is a
  partial function: \<open>None\<close> is the loop that never leaves. In each branch the new
  \<open>c\<close> and \<open>d\<close> are computed from the updated bracket, as the last two assignments
  of the loop body do.
\<close>

partial_function (option) gss_loop ::
  "(real \<Rightarrow> real) \<Rightarrow> real \<Rightarrow> real \<Rightarrow> real \<Rightarrow> real \<Rightarrow> real \<Rightarrow> real option" where
  "gss_loop f tol a b c d =
     (if \<bar>b - a\<bar> > tol
      then (if f c < f d
            then gss_loop f tol a d (d - GR * (d - a)) (a + GR * (d - a))
            else gss_loop f tol c b (b - GR * (b - c)) (c + GR * (b - c)))
      else Some ((b + a) / 2))"

definition goldenSectionSearch :: "(real \<Rightarrow> real) \<Rightarrow> real \<Rightarrow> real \<Rightarrow> real \<Rightarrow> real option" where
  "goldenSectionSearch f a b tol = gss_loop f tol a b (b - GR * (b - a)) (a + GR * (b - a))"

text \<open>\<open>calculateVk\<close> calls the search with its default tolerance \<open>1e-4\<close>.\<close>

definition costFunc :: "real \<Rightarrow> real \<Rightarrow> real \<Rightarrow> real" where
  "costFunc xi k a = (k * k * (a - xi) ^ 2) + calculateH a"

definition calculateVk :: "real \<Rightarrow> real \<Rightarrow> real option" where
  "calculateVk xi k =
     (case goldenSectionSearch (costFunc xi k) (- 20) 20 (1 / 10000) of
        None \<Rightarrow> None
      | Some optimalA \<Rightarrow> Some (costFunc xi k optimalA))"

text \<open>
  The integrand of \<open>calculateLowerBound\<close> runs a search, so it may not return; then
  \<open>integrate\<close> does not return either. \<open>integrate_opt\<close> is \<open>integrate\<close> for such an
  integrand: the same evaluations in the same order, each one able to fail.
\<close>

function integrate_opt_loop ::
  "(real \<Rightarrow> real option) \<Rightarrow> real \<Rightarrow> real \<Rightarrow> nat \<Rightarrow> nat \<Rightarrow> real \<Rightarrow> real option" where
  "integrate_opt_loop func mn h n i acc =
     (if i < n
      then (case func (mn + real i * h) of
              None \<Rightarrow> None
            | Some v \<Rightarrow> integrate_opt_loop func mn h n (i + 1)
                          (acc + v * (if i mod 2 = 0 then 2 else 4)))
      else Some acc)"
  by pat_completeness auto
termination
  by (relation "measure (\<lambda>(func, mn, h, n, i, acc). n - i)") auto

declare integrate_opt_loop.simps [simp del]

definition integrate_opt :: "(real \<Rightarrow> real option) \<Rightarrow> real \<Rightarrow> real \<Rightarrow> nat \<Rightarrow> real option" where
  "integrate_opt func mn mx n =
     (let h = (mx - mn) / real n
      in case func mn of
           None \<Rightarrow> None
         | Some v0 \<Rightarrow>
             (case func mx of
                None \<Rightarrow> None
              | Some v1 \<Rightarrow>
                  (case integrate_opt_loop func mn h n 1 (v0 + v1) of
                     None \<Rightarrow> None
                   | Some acc \<Rightarrow> Some ((acc * h) / 3))))"

definition calculateLowerBound :: "real \<Rightarrow> real \<Rightarrow> real option" where
  "calculateLowerBound k sigma =
     (let integrand = (\<lambda>z. case calculateVk (sigma * z) k of
                               None \<Rightarrow> None
                             | Some v \<Rightarrow> Some (phi z * v))
      in case integrate_opt integrand 0 5 50 of
           None \<Rightarrow> None
         | Some r \<Rightarrow> Some (2 * r))"

section \<open>The cost model (mathUtils.ts, calculateCosts)\<close>

record costs =
  lambda :: real
  affineCost :: real
  nonlinCost :: real
  lowerBound :: real

definition calculateCosts :: "real \<Rightarrow> real \<Rightarrow> costs option" where
  "calculateCosts k sigma =
     (let lam = solveAffineLambda k sigma;
          aCost = (k * k * sigma * sigma * (1 - lam) ^ 2) +
                  (sigma * sigma * lam * lam) / (1 + sigma * sigma * lam * lam);
          firstTerm = 2 * k * k * sigma * sigma * (1 - sqrt (2 / pi));
          secondTerm = calculateH sigma;
          nCost = firstTerm + secondTerm
      in case calculateLowerBound k sigma of
           None \<Rightarrow> None
         | Some lb \<Rightarrow>
             Some \<lparr>lambda = lam, affineCost = aCost, nonlinCost = nCost, lowerBound = lb\<rparr>)"

section \<open>The lookup layer (App.tsx, getKIndex, getSigmaIndex, results)\<close>

text \<open>
  \<open>costs.json\<close> is written by \<open>scripts/generateData.ts\<close> and is not part of the
  sources, so the table is a parameter: the \<open>min\<close> and \<open>step\<close> of the two axes and the
  rows of cells.
\<close>

record axis_metadata =
  axis_min :: real
  axis_step :: real

record costs_json =
  metadata_k :: axis_metadata
  metadata_sigma :: axis_metadata
  data :: "costs list list"

text \<open>
  \<open>Math.round\<close> rounds to the nearest integer, a tie towards plus infinity. A division
  by a zero \<open>step\<close> gives Infinity or NaN in JavaScript, which \<open>Math.round\<close> returns
  unchanged and which fails every comparison of the bounds check: \<open>None\<close> stands for
  such an index.
\<close>

definition Math_round :: "real \<Rightarrow> int" where
  "Math_round x = \<lfloor>x + 1 / 2\<rfloor>"

definition getKIndex :: "costs_json \<Rightarrow> real \<Rightarrow> int option" where
  "getKIndex costsData k =
     (let mn = axis_min (metadata_k costsData); step = axis_step (metadata_k costsData)
      in if step = 0 then None else Some (Math_round ((k - mn) / step)))"

definition getSigmaIndex :: "costs_json \<Rightarrow> real \<Rightarrow> int option" where
  "getSigmaIndex costsData s =
     (let mn = axis_min (metadata_sigma costsData); step = axis_step (metadata_sigma costsData)
      in if step = 0 then None else Some (Math_round ((s - mn) / step)))"

record lookup_result = costs +
  isCounterExample :: bool

definition fallback :: lookup_result where
  "fallback = \<lparr>lambda = 0, affineCost = 0, nonlinCost = 0, lowerBound = 0,
                isCounterExample = False\<rparr>"

datatype js_error = TypeError

text \<open>
  The \<open>useMemo\<close> body of \<open>results\<close>. The safety check compares \<open>sIdx\<close> with the length
  of row 0; a row \<open>kIdx\<close> shorter than that gives \<open>undefined\<close> for the cell, and reading
  \<open>costs.nonlinCost\<close> of it throws.
\<close>

definition results :: "costs_json \<Rightarrow> real \<Rightarrow> real \<Rightarrow> js_error + lookup_result" where
  "results costsData k sigma =
     (case (getKIndex costsData k, getSigmaIndex costsData sigma) of
        (Some kIdx, Some sIdx) \<Rightarrow>
          if kIdx \<ge> 0 \<and> kIdx < int (length (data costsData)) \<and>
             sIdx \<ge> 0 \<and> sIdx < int (length (data costsData ! 0))
          then (if nat sIdx < length (data costsData ! nat kIdx)
                then (let c = data costsData ! nat kIdx ! nat sIdx
                      in Inr \<lparr>lambda = lambda c, affineCost = affineCost c,
                              nonlinCost = nonlinCost c, lowerBound = lowerBound c,
                              isCounterExample = (nonlinCost c < affineCost c)\<rparr>)
                else Inl TypeError)
          else Inr fallback
      | _ \<Rightarrow> Inr fallback)"

text \<open>A table of one cell, with both axes starting at 0 in steps of 1.\<close>

definition example_table :: costs_json where
  "example_table =
     \<lparr>metadata_k = \<lparr>axis_min = 0, axis_step = 1\<rparr>,
      metadata_sigma = \<lparr>axis_min = 0, axis_step = 1\<rparr>,
      data = [[\<lparr>lambda = 0, affineCost = 2, nonlinCost = 1, lowerBound = 0\<rparr>]]\<rparr>"

section \<open>Definitions that follow the specification\<close>

text \<open>
  Composite Simpson rule as the specification words it: step \<open>h = (b - a) / n\<close>, the
  two endpoint values once, the interior node \<open>i\<close> (counted from 1) weighted 4 when
  \<open>i\<close> is odd and 2 when it is even, the total multiplied by \<open>h / 3\<close>.
\<close>

definition simpson_rule :: "(real \<Rightarrow> real) \<Rightarrow> real \<Rightarrow> real \<Rightarrow> nat \<Rightarrow> real" where
  "simpson_rule f a b n =
     (let h = (b - a) / real n
      in (f a + f b + (\<Sum>i = 1..<n. (if odd i then 4 else 2) * f (a + real i * h))) * (h / 3))"

text \<open>
  A polynomial of degree at most 3 by its coefficients, and its primitive; the
  analytical integral over \<open>[a, b]\<close> is the difference of the primitive at \<open>b\<close> and
  at \<open>a\<close>.
\<close>

definition cubic :: "real \<Rightarrow> real \<Rightarrow> real \<Rightarrow> real \<Rightarrow> real \<Rightarrow> real" where
  "cubic c0 c1 c2 c3 x = c0 + c1 * x + c2 * x ^ 2 + c3 * x ^ 3"

definition cubic_primitive :: "real \<Rightarrow> real \<Rightarrow> real \<Rightarrow> real \<Rightarrow> real \<Rightarrow> real" where
  "cubic_primitive c0 c1 c2 c3 x = c0 * x + c1 * x ^ 2 / 2 + c2 * x ^ 3 / 3 + c3 * x ^ 4 / 4"

text \<open>
  The root finder of the specification (section 4.2): no bracket gives the sentinel 0;
  otherwise each iteration computes the midpoint, stops when \<open>|f mid| < tol\<close>, and
  else keeps the half with the sign change; after \<open>maxIter\<close> iterations the last
  midpoint is the result.
\<close>

fun findRoot_iter :: "(real \<Rightarrow> real) \<Rightarrow> real \<Rightarrow> nat \<Rightarrow> real \<Rightarrow> real \<Rightarrow> real \<Rightarrow> real" where
  "findRoot_iter f tol 0 low high last_mid = last_mid"
| "findRoot_iter f tol (Suc n) low high last_mid =
     (let mid = (low + high) / 2
      in if \<bar>f mid\<bar> < tol then mid
         else if f low * f mid < 0 then findRoot_iter f tol n low mid mid
         else findRoot_iter f tol n mid high mid)"

definition findRoot :: "(real \<Rightarrow> real) \<Rightarrow> real \<Rightarrow> real \<Rightarrow> real \<Rightarrow> nat \<Rightarrow> real" where
  "findRoot f low high tol maxIter =
     (if f low * f high > 0 then 0 else findRoot_iter f tol maxIter low high 0)"

text \<open>
  The unimodal minimizer of the specification (section 4.3): it keeps a bracket
  \<open>[a, b]\<close> and the two probe points at the golden-ratio fractions, at each step
  keeps the sub-bracket with the lower-valued probe, shrinks until the width of the
  bracket is below \<open>tol\<close>, and returns the midpoint of the bracket. \<open>minimize_iter\<close>
  does at most \<open>n\<close> such steps.
\<close>

fun minimize_iter :: "(real \<Rightarrow> real) \<Rightarrow> real \<Rightarrow> nat \<Rightarrow> real \<Rightarrow> real \<Rightarrow> real \<times> real" where
  "minimize_iter f tol 0 a b = (a, b)"
| "minimize_iter f tol (Suc n) a b =
     (if \<bar>b - a\<bar> < tol then (a, b)
      else (let c = b - GR * (b - a); d = a + GR * (b - a)
            in if f c < f d then minimize_iter f tol n a d else minimize_iter f tol n c b))"

definition minimize :: "(real \<Rightarrow> real) \<Rightarrow> real \<Rightarrow> real \<Rightarrow> real \<Rightarrow> nat \<Rightarrow> real" where
  "minimize f a b tol n = (case minimize_iter f tol n a b of (a', b') \<Rightarrow> (a' + b') / 2)"

text \<open>
  \<open>Vk xi k\<close> of the specification (section 4.4): the value of
  \<open>k\<^sup>2 (a - xi)\<^sup>2 + h a\<close> at the point the minimizer gives on \<open>[-20, 20]\<close> with
  tolerance \<open>1e-4\<close>; 27 steps bring the width \<open>40 GR\<^sup>n\<close> below that tolerance.
\<close>

definition Vk :: "real \<Rightarrow> real \<Rightarrow> real" where
  "Vk xi k =
     (let cost = (\<lambda>a. k ^ 2 * (a - xi) ^ 2 + calculateH a)
      in cost (minimize cost (- 20) 20 (1 / 10000) 27))"


section \<open>The nonlinear cost in double arithmetic (mathUtils.ts, calculateCosts)\<close>

text \<open>
  The two lines of \<open>calculateCosts\<close> that compute \<open>firstTerm\<close> and \<open>nonlinCost\<close>, on
  doubles with their overflow: a product or sum whose exact value has magnitude
  \<open>2\<^sup>1\<^sup>0\<^sup>2\<^sup>4\<close> or more is an infinity, and infinities and NaN combine as IEEE 754
  says. Rounding below that magnitude is still not modelled. \<open>isFinite\<close> is
  \<open>Number.isFinite\<close>; \<open>secondTerm\<close> is the value \<open>calculateH sigma\<close> returned.
\<close>

datatype js_number = Finite real | PosInfinity | NegInfinity | NaN

definition double_limit :: real where
  "double_limit = 2 ^ 1024"

definition overflow :: "real \<Rightarrow> js_number" where
  "overflow x = (if double_limit \<le> x then PosInfinity
                 else if x \<le> - double_limit then NegInfinity else Finite x)"

fun js_times :: "js_number \<Rightarrow> js_number \<Rightarrow> js_number" where
  "js_times NaN y = NaN"
| "js_times x NaN = NaN"
| "js_times (Finite x) (Finite y) = overflow (x * y)"
| "js_times (Finite x) PosInfinity =
     (if x = 0 then NaN else if 0 < x then PosInfinity else NegInfinity)"
| "js_times (Finite x) NegInfinity =
     (if x = 0 then NaN else if 0 < x then NegInfinity else PosInfinity)"
| "js_times PosInfinity (Finite y) =
     (if y = 0 then NaN else if 0 < y then PosInfinity else NegInfinity)"
| "js_times NegInfinity (Finite y) =
     (if y = 0 then NaN else if 0 < y then NegInfinity else PosInfinity)"
| "js_times PosInfinity PosInfinity = PosInfinity"
| "js_times PosInfinity NegInfinity = NegInfinity"
| "js_times NegInfinity PosInfinity = NegInfinity"
| "js_times NegInfinity NegInfinity = PosInfinity"

fun js_plus :: "js_number \<Rightarrow> js_number \<Rightarrow> js_number" where
  "js_plus NaN y = NaN"
| "js_plus x NaN = NaN"
| "js_plus (Finite x) (Finite y) = overflow (x + y)"
| "js_plus (Finite x) PosInfinity = PosInfinity"
| "js_plus (Finite x) NegInfinity = NegInfinity"
| "js_plus PosInfinity (Finite y) = PosInfinity"
| "js_plus NegInfinity (Finite y) = NegInfinity"
| "js_plus PosInfinity PosInfinity = PosInfinity"
| "js_plus PosInfinity NegInfinity = NaN"
| "js_plus NegInfinity PosInfinity = NaN"
| "js_plus NegInfinity NegInfinity = NegInfinity"

fun isFinite :: "js_number \<Rightarrow> bool" where
  "isFinite (Finite x) = True"
| "isFinite x = False"

definition firstTerm_double :: "js_number \<Rightarrow> js_number \<Rightarrow> js_number" where
  "firstTerm_double k sigma =
     js_times (js_times (js_times (js_times (js_times (Finite 2) k) k) sigma) sigma)
       (Finite (1 - sqrt (2 / pi)))"

definition nonlinCost_double :: "js_number \<Rightarrow> js_number \<Rightarrow> js_number \<Rightarrow> js_number" where
  "nonlinCost_double k sigma secondTerm = js_plus (firstTerm_double k sigma) secondTerm"


section \<open>Quadrature: the loop as a sum, exactness on cubics\<close>

lemma integrate_loop_sum:
  "integrate_loop func mn h n i acc =
     acc + (\<Sum>j = i..<n. func (mn + real j * h) * (if j mod 2 = 0 then 2 else 4))"
proof (induction func mn h n i acc rule: integrate_loop.induct)
  case (1 func mn h n i acc)
  show ?case
  proof (cases "i < n")
    case True
    then show ?thesis
      using "1.IH" by (subst integrate_loop.simps) (simp add: sum.atLeast_Suc_lessThan)
  next
    case False
    then show ?thesis by (subst integrate_loop.simps) simp
  qed
qed

lemma cubic_primitive_deriv:
  "(cubic_primitive c0 c1 c2 c3 has_real_derivative cubic c0 c1 c2 c3 x) (at x)"
  unfolding cubic_primitive_def cubic_def
  by (auto intro!: derivative_eq_intros simp: power2_eq_square power3_eq_cube algebra_simps)

lemma simpson_panel:
  "(cubic c0 c1 c2 c3 x + 4 * cubic c0 c1 c2 c3 (x + h) + cubic c0 c1 c2 c3 (x + 2 * h)) * h / 3
     = cubic_primitive c0 c1 c2 c3 (x + 2 * h) - cubic_primitive c0 c1 c2 c3 x"
  unfolding cubic_primitive_def cubic_def
  by (simp add: field_simps) algebra

lemma sum_two_more:
  fixes g :: "nat \<Rightarrow> real"
  assumes "1 \<le> k"
  shows "(\<Sum>j = 1..<Suc (Suc k). g j) = (\<Sum>j = 1..<k. g j) + g k + g (Suc k)"
  using assms by (simp add: sum.atLeastLessThan_Suc)

lemma simpson_telescope:
  fixes g G :: "nat \<Rightarrow> real"
  assumes panel: "\<And>p. (g (2 * p) + 4 * g (Suc (2 * p)) + g (Suc (Suc (2 * p)))) * h / 3
                      = G (Suc (Suc (2 * p))) - G (2 * p)"
  shows "(g 0 + g (2 * Suc m) +
          (\<Sum>j = 1..<2 * Suc m. g j * (if j mod 2 = 0 then 2 else 4))) * h / 3
         = G (2 * Suc m) - G 0"
proof (induction m)
  case 0
  have "{1..<2 * Suc 0} = {1::nat}" by auto
  then show ?case using panel [of 0] by (simp add: algebra_simps)
next
  case (Suc m)
  define k where "k = 2 * Suc m"
  define w where "w = (\<lambda>j::nat. if j mod 2 = 0 then 2 else (4::real))"
  have k1: "1 \<le> k" and keven: "k mod 2 = 0" and kodd: "Suc k mod 2 \<noteq> 0"
    and knext: "2 * Suc (Suc m) = Suc (Suc k)"
    unfolding k_def by simp_all
  have wk: "w k = 2" and wk1: "w (Suc k) = 4"
    unfolding w_def using keven kodd by simp_all
  have IH: "(g 0 + g k + (\<Sum>j = 1..<k. g j * w j)) * h / 3 = G k - G 0"
    using Suc.IH unfolding k_def w_def .
  have P: "(g k + 4 * g (Suc k) + g (Suc (Suc k))) * h / 3 = G (Suc (Suc k)) - G k"
    using panel [of "Suc m"] unfolding k_def .
  have S: "(\<Sum>j = 1..<Suc (Suc k). g j * w j)
      = (\<Sum>j = 1..<k. g j * w j) + g k * 2 + g (Suc k) * 4"
    using sum_two_more [OF k1, of "\<lambda>j. g j * w j"] by (simp only: wk wk1)
  have "(g 0 + g (Suc (Suc k)) + (\<Sum>j = 1..<Suc (Suc k). g j * w j)) * h / 3
      = (g 0 + g k + (\<Sum>j = 1..<k. g j * w j)) * h / 3
        + (g k + 4 * g (Suc k) + g (Suc (Suc k))) * h / 3"
    unfolding S by (simp add: field_simps)
  also have "\<dots> = G (Suc (Suc k)) - G 0"
    unfolding IH P by simp
  finally show ?case
    unfolding knext w_def .
qed

lemma simpson_cubic_nodes:
  "(cubic c0 c1 c2 c3 a + cubic c0 c1 c2 c3 (a + real (2 * Suc m) * h) +
     (\<Sum>j = 1..<2 * Suc m. cubic c0 c1 c2 c3 (a + real j * h) * (if j mod 2 = 0 then 2 else 4)))
       * h / 3
   = cubic_primitive c0 c1 c2 c3 (a + real (2 * Suc m) * h) - cubic_primitive c0 c1 c2 c3 a"
proof -
  define g where "g = (\<lambda>j::nat. cubic c0 c1 c2 c3 (a + real j * h))"
  define G where "G = (\<lambda>j::nat. cubic_primitive c0 c1 c2 c3 (a + real j * h))"
  have panel: "(g (2 * p) + 4 * g (Suc (2 * p)) + g (Suc (Suc (2 * p)))) * h / 3
                 = G (Suc (Suc (2 * p))) - G (2 * p)" for p
  proof -
    have n1: "a + real (Suc (2 * p)) * h = (a + real (2 * p) * h) + h"
      and n2: "a + real (Suc (Suc (2 * p))) * h = (a + real (2 * p) * h) + 2 * h"
      by (simp_all add: algebra_simps)
    show ?thesis
      unfolding g_def G_def n1 n2 by (rule simpson_panel)
  qed
  have "(g 0 + g (2 * Suc m) + (\<Sum>j = 1..<2 * Suc m. g j * (if j mod 2 = 0 then 2 else 4))) * h / 3
          = G (2 * Suc m) - G 0"
    using panel by (rule simpson_telescope)
  then show ?thesis
    unfolding g_def G_def by simp
qed

lemma integrate_simpson_rule: "integrate f a b n = simpson_rule f a b n"
proof -
  have "(\<Sum>j = 1..<n. f (a + real j * ((b - a) / real n)) * (if j mod 2 = 0 then 2 else 4))
      = (\<Sum>i = 1..<n. (if odd i then 4 else 2) * f (a + real i * ((b - a) / real n)))"
    by (rule sum.cong) (auto simp: odd_iff_mod_2_eq_one)
  then show ?thesis
    by (simp add: integrate_def simpson_rule_def Let_def integrate_loop_sum)
qed

lemma integrate_cubic_primitive:
  assumes "even n" and "2 \<le> n"
  shows "integrate (cubic c0 c1 c2 c3) a b n
           = cubic_primitive c0 c1 c2 c3 b - cubic_primitive c0 c1 c2 c3 a"
proof -
  from assms obtain m where n: "n = 2 * Suc m"
  proof -
    from \<open>even n\<close> obtain q where q: "n = 2 * q" by (elim evenE)
    with \<open>2 \<le> n\<close> have "q \<noteq> 0" by auto
    then obtain m where "q = Suc m" by (cases q) auto
    with q show ?thesis using that by simp
  qed
  define h where "h = (b - a) / real n"
  have end_node: "a + real (2 * Suc m) * h = b"
    unfolding h_def n by simp
  have "integrate (cubic c0 c1 c2 c3) a b n
      = (cubic c0 c1 c2 c3 a + cubic c0 c1 c2 c3 (a + real (2 * Suc m) * h) +
          (\<Sum>j = 1..<2 * Suc m. cubic c0 c1 c2 c3 (a + real j * h) * (if j mod 2 = 0 then 2 else 4))) * h / 3"
    unfolding end_node by (simp add: integrate_def Let_def integrate_loop_sum h_def n)
  also have "\<dots> = cubic_primitive c0 c1 c2 c3 (a + real (2 * Suc m) * h) - cubic_primitive c0 c1 c2 c3 a"
    by (rule simpson_cubic_nodes)
  finally show ?thesis
    unfolding end_node .
qed

text \<open>
  C8. For every polynomial \<open>f\<close> of degree at most 3, every interval \<open>[a, b]\<close> and
  every even \<open>n \<ge> 2\<close>, \<open>integrate f a b n\<close> is the analytical integral of \<open>f\<close> over
  \<open>[a, b]\<close>, and \<open>integrate\<close> is the composite Simpson rule of the specification.
  The equality is exact in real arithmetic and needs no order between \<open>a\<close> and \<open>b\<close>.
\<close>

theorem integrate_cubic_exact:
  assumes "even n" and "2 \<le> n"
  shows "integrate (cubic c0 c1 c2 c3) a b n
           = cubic_primitive c0 c1 c2 c3 b - cubic_primitive c0 c1 c2 c3 a
         \<and> integrate (cubic c0 c1 c2 c3) a b n = simpson_rule (cubic c0 c1 c2 c3) a b n"
proof
  show "integrate (cubic c0 c1 c2 c3) a b n
          = cubic_primitive c0 c1 c2 c3 b - cubic_primitive c0 c1 c2 c3 a"
    using assms by (rule integrate_cubic_primitive)
  show "integrate (cubic c0 c1 c2 c3) a b n = simpson_rule (cubic c0 c1 c2 c3) a b n"
    by (rule integrate_simpson_rule)
qed

theorem integrate_cubic_exact_witness:
  "even (2::nat) \<and> (2::nat) \<le> 2 \<and>
   integrate (cubic 1 2 3 4) 0 1 2 = cubic_primitive 1 2 3 4 1 - cubic_primitive 1 2 3 4 0"
  using integrate_cubic_exact [of 2 1 2 3 4 0 1] by simp

section \<open>Symmetry of the auxiliary function\<close>

text \<open>
  C9. The auxiliary function is even: \<open>calculateH a = calculateH (- a)\<close> for every real
  \<open>a\<close>, the hard-coded case \<open>calculateH 0 = 0\<close> included.
\<close>

theorem calculateH_even: "calculateH a = calculateH (- a) \<and> calculateH 0 = 0"
  by (simp add: calculateH_def)

section \<open>The golden-section loop: when it returns\<close>

lemma GR_pos: "0 < GR" and GR_less_1: "GR < 1"
proof -
  have "sqrt 1 < sqrt 5" by (rule real_sqrt_less_mono) simp
  then show "0 < GR" by (simp add: GR_def)
  have "sqrt 5 < sqrt 9" by (rule real_sqrt_less_mono) simp
  moreover have "sqrt 9 = 3" using real_sqrt_abs [of 3] by simp
  ultimately show "GR < 1" by (simp add: GR_def)
qed

lemma gss_loop_returns_within:
  assumes "\<bar>b - a\<bar> * GR ^ n \<le> tol"
  shows "gss_loop f tol a b (b - GR * (b - a)) (a + GR * (b - a)) \<noteq> None"
  using assms
proof (induction n arbitrary: a b)
  case 0
  then show ?case by (subst gss_loop.simps) simp
next
  case (Suc n)
  show ?case
  proof (cases "\<bar>b - a\<bar> > tol")
    case False
    then show ?thesis by (subst gss_loop.simps) simp
  next
    case True
    let ?c = "b - GR * (b - a)" and ?d = "a + GR * (b - a)"
    have w1: "\<bar>?d - a\<bar> * GR ^ n \<le> tol"
      using Suc.prems GR_pos by (simp add: abs_mult mult.assoc mult.left_commute)
    have w2: "\<bar>b - ?c\<bar> * GR ^ n \<le> tol"
      using Suc.prems GR_pos by (simp add: abs_mult mult.assoc mult.left_commute)
    show ?thesis
      using True Suc.IH [OF w1] Suc.IH [OF w2]
      by (subst gss_loop.simps) simp
  qed
qed

lemma gss_width_shrinks:
  assumes "0 < tol"
  shows "\<exists>n. \<bar>b - a\<bar> * GR ^ n \<le> tol"
proof (cases "b = a")
  case True
  then show ?thesis using assms by simp
next
  case False
  then have pos: "0 < \<bar>b - a\<bar>" by simp
  with assms have "0 < tol / \<bar>b - a\<bar>" by simp
  then obtain n where "GR ^ n < tol / \<bar>b - a\<bar>"
    using real_arch_pow_inv [OF _ GR_less_1] by blast
  with pos have "\<bar>b - a\<bar> * GR ^ n \<le> tol"
    by (simp add: pos_less_divide_eq mult.commute)
  then show ?thesis ..
qed

lemma goldenSectionSearch_returns:
  assumes "0 < tol"
  shows "goldenSectionSearch f a b tol \<noteq> None"
proof -
  from gss_width_shrinks [OF assms] obtain n where "\<bar>b - a\<bar> * GR ^ n \<le> tol" ..
  then show ?thesis
    unfolding goldenSectionSearch_def by (rule gss_loop_returns_within)
qed

lemma gss_loop_stuck:
  assumes "gss_loop f tol a b c d = Some y"
  shows "\<not> (tol \<le> 0 \<and> tol < \<bar>b - a\<bar> \<and> c = b - GR * (b - a) \<and> d = a + GR * (b - a))"
proof (rule gss_loop.raw_induct
    [where P = "\<lambda>f tol a b c d y.
        \<not> (tol \<le> 0 \<and> tol < \<bar>b - a\<bar> \<and> c = b - GR * (b - a) \<and> d = a + GR * (b - a))",
      OF _ assms], goal_cases)
  case (1 loop f tol a b c d y)
  show ?case
  proof
    assume P: "tol \<le> 0 \<and> tol < \<bar>b - a\<bar> \<and> c = b - GR * (b - a) \<and> d = a + GR * (b - a)"
    have w1: "\<bar>d - a\<bar> = GR * \<bar>b - a\<bar>" and w2: "\<bar>b - c\<bar> = GR * \<bar>b - a\<bar>"
      using P GR_pos by (simp_all add: abs_mult)
    have "tol < GR * \<bar>b - a\<bar>"
    proof (cases "b = a")
      case True
      with P show ?thesis by simp
    next
      case False
      then have "0 < GR * \<bar>b - a\<bar>" using GR_pos by simp
      with P show ?thesis by linarith
    qed
    with w1 w2 have t1: "tol < \<bar>d - a\<bar>" and t2: "tol < \<bar>b - c\<bar>" by simp_all
    show False
    proof (cases "f c < f d")
      case True
      with 1(2) P have "loop f tol a d (d - GR * (d - a)) (a + GR * (d - a)) = Some y" by simp
      then have "\<not> (tol \<le> 0 \<and> tol < \<bar>d - a\<bar> \<and> d - GR * (d - a) = d - GR * (d - a)
                    \<and> a + GR * (d - a) = a + GR * (d - a))"
        by (rule 1(1))
      with P t1 show False by simp
    next
      case False
      with 1(2) P have "loop f tol c b (b - GR * (b - c)) (c + GR * (b - c)) = Some y" by simp
      then have "\<not> (tol \<le> 0 \<and> tol < \<bar>b - c\<bar> \<and> b - GR * (b - c) = b - GR * (b - c)
                    \<and> c + GR * (b - c) = c + GR * (b - c))"
        by (rule 1(1))
      with P t2 show False by simp
    qed
  qed
qed

lemma goldenSectionSearch_returns_iff:
  "goldenSectionSearch f a b tol \<noteq> None \<longleftrightarrow> 0 < tol \<or> \<bar>b - a\<bar> \<le> tol"
proof
  assume "goldenSectionSearch f a b tol \<noteq> None"
  then obtain y where "gss_loop f tol a b (b - GR * (b - a)) (a + GR * (b - a)) = Some y"
    unfolding goldenSectionSearch_def by auto
  from gss_loop_stuck [OF this] show "0 < tol \<or> \<bar>b - a\<bar> \<le> tol" by auto
next
  assume "0 < tol \<or> \<bar>b - a\<bar> \<le> tol"
  then show "goldenSectionSearch f a b tol \<noteq> None"
  proof
    assume "0 < tol" then show ?thesis by (rule goldenSectionSearch_returns)
  next
    assume "\<bar>b - a\<bar> \<le> tol"
    then show ?thesis
      unfolding goldenSectionSearch_def by (subst gss_loop.simps) simp
  qed
qed

section \<open>The golden-section loop and the minimizer of the specification\<close>

lemma gss_loop_minimize_iter:
  assumes "\<bar>b - a\<bar> * GR ^ n < tol" and "\<And>m. m < n \<Longrightarrow> tol < \<bar>b - a\<bar> * GR ^ m"
  shows "gss_loop f tol a b (b - GR * (b - a)) (a + GR * (b - a))
           = Some (minimize f a b tol n)"
  using assms
proof (induction n arbitrary: a b)
  case 0
  then show ?case by (subst gss_loop.simps) (simp add: minimize_def add.commute)
next
  case (Suc n)
  have big: "tol < \<bar>b - a\<bar>" using Suc.prems(2) [of 0] by simp
  let ?c = "b - GR * (b - a)" and ?d = "a + GR * (b - a)"
  have wd: "\<bar>?d - a\<bar> = \<bar>b - a\<bar> * GR" and wc: "\<bar>b - ?c\<bar> = \<bar>b - a\<bar> * GR"
    using GR_pos by (simp_all add: abs_mult mult.commute)
  have d1: "\<bar>?d - a\<bar> * GR ^ n < tol" and c1: "\<bar>b - ?c\<bar> * GR ^ n < tol"
    unfolding wd wc using Suc.prems(1) by (simp_all add: mult.assoc)
  have d2: "tol < \<bar>?d - a\<bar> * GR ^ m" and c2: "tol < \<bar>b - ?c\<bar> * GR ^ m" if "m < n" for m
    unfolding wd wc using Suc.prems(2) [of "Suc m"] that by (simp_all add: mult.assoc)
  have D: "gss_loop f tol a ?d (?d - GR * (?d - a)) (a + GR * (?d - a)) = Some (minimize f a ?d tol n)"
    using d1 d2 by (rule Suc.IH)
  have C: "gss_loop f tol ?c b (b - GR * (b - ?c)) (?c + GR * (b - ?c)) = Some (minimize f ?c b tol n)"
    using c1 c2 by (rule Suc.IH)
  show ?case
    using big D C by (subst gss_loop.simps) (simp add: minimize_def Let_def)
qed

lemma minimize_iter_bracket:
  assumes "a \<le> b"
  shows "a \<le> fst (minimize_iter f tol n a b) \<and>
         fst (minimize_iter f tol n a b) \<le> snd (minimize_iter f tol n a b) \<and>
         snd (minimize_iter f tol n a b) \<le> b"
  using assms
proof (induction n arbitrary: a b)
  case 0
  then show ?case by simp
next
  case (Suc n)
  let ?c = "b - GR * (b - a)" and ?d = "a + GR * (b - a)"
  have g: "0 \<le> GR * (b - a)" "GR * (b - a) \<le> b - a"
    using Suc.prems GR_pos GR_less_1 by (simp_all add: mult_left_le_one_le)
  then have ad: "a \<le> ?d" "?d \<le> b" and cb: "?c \<le> b" "a \<le> ?c" by linarith+
  from Suc.IH [OF ad(1)] Suc.IH [OF cb(1)] ad cb Suc.prems
  show ?case by (auto simp: Let_def)
qed

lemma GR_bounds: "123 / 200 < GR" "GR < 619 / 1000"
proof -
  have "(223 / 100 :: real) < sqrt 5" by (rule real_less_rsqrt) (simp add: power2_eq_square)
  then show "123 / 200 < GR" by (simp add: GR_def)
  have "sqrt 5 < (2238 / 1000 :: real)" by (rule real_less_lsqrt) (simp_all add: power2_eq_square)
  then show "GR < 619 / 1000" by (simp add: GR_def)
qed

lemma GR_pow_26: "1 / 400000 < GR ^ 26"
proof -
  have "(1 / 400000 :: real) < (123 / 200) ^ 26" by (simp add: power_divide)
  also have "\<dots> \<le> GR ^ 26" using GR_bounds(1) by (intro power_mono) simp_all
  finally show ?thesis .
qed

lemma GR_pow_27: "GR ^ 27 < 1 / 400000"
proof -
  have "GR ^ 27 \<le> (619 / 1000) ^ 27" using GR_bounds(2) GR_pos by (intro power_mono) simp_all
  also have "\<dots> < (1 / 400000 :: real)" by (simp add: power_divide)
  finally show ?thesis .
qed

lemma goldenSectionSearch_engine:
  "goldenSectionSearch f (- 20) 20 (1 / 10000) = Some (minimize f (- 20) 20 (1 / 10000) 27)"
proof -
  have lt: "\<bar>20 - (- 20 :: real)\<bar> * GR ^ 27 < 1 / 10000"
    using GR_pow_27 by simp
  have gt: "1 / 10000 < \<bar>20 - (- 20 :: real)\<bar> * GR ^ m" if "m < 27" for m
  proof -
    have "GR ^ 26 \<le> GR ^ m"
      using that GR_pos GR_less_1 by (intro power_decreasing) simp_all
    with GR_pow_26 show ?thesis by simp
  qed
  show ?thesis
    unfolding goldenSectionSearch_def using lt gt by (rule gss_loop_minimize_iter)
qed

lemma minimize_iter_width:
  assumes "\<And>m. m < n \<Longrightarrow> tol \<le> \<bar>b - a\<bar> * GR ^ m"
  shows "\<bar>snd (minimize_iter f tol n a b) - fst (minimize_iter f tol n a b)\<bar> = \<bar>b - a\<bar> * GR ^ n"
  using assms
proof (induction n arbitrary: a b)
  case 0
  then show ?case by simp
next
  case (Suc n)
  have big: "\<not> \<bar>b - a\<bar> < tol" using Suc.prems [of 0] by simp
  let ?c = "b - GR * (b - a)" and ?d = "a + GR * (b - a)"
  have wd: "\<bar>?d - a\<bar> = \<bar>b - a\<bar> * GR" and wc: "\<bar>b - ?c\<bar> = \<bar>b - a\<bar> * GR"
    using GR_pos by (simp_all add: abs_mult mult.commute)
  have d2: "tol \<le> \<bar>?d - a\<bar> * GR ^ m" and c2: "tol \<le> \<bar>b - ?c\<bar> * GR ^ m" if "m < n" for m
    unfolding wd wc using Suc.prems [of "Suc m"] that by (simp_all add: mult.assoc)
  have D: "\<bar>snd (minimize_iter f tol n a ?d) - fst (minimize_iter f tol n a ?d)\<bar> = \<bar>b - a\<bar> * GR ^ Suc n"
    using Suc.IH [of ?d a, OF d2] unfolding wd by (simp add: mult.assoc)
  have C: "\<bar>snd (minimize_iter f tol n ?c b) - fst (minimize_iter f tol n ?c b)\<bar> = \<bar>b - a\<bar> * GR ^ Suc n"
    using Suc.IH [of b ?c, OF c2] unfolding wc by (simp add: mult.assoc)
  show ?case
    using big D C by (simp add: Let_def del: power_Suc)
qed

lemma minimize_iter_more_fuel:
  assumes "\<bar>snd (minimize_iter f tol n a b) - fst (minimize_iter f tol n a b)\<bar> < tol"
  shows "minimize_iter f tol (n + m) a b = minimize_iter f tol n a b"
  using assms
proof (induction n arbitrary: a b)
  case 0
  then show ?case by (cases m) simp_all
next
  case (Suc n)
  show ?case
  proof (cases "\<bar>b - a\<bar> < tol")
    case True
    then show ?thesis by simp
  next
    case False
    let ?c = "b - GR * (b - a)" and ?d = "a + GR * (b - a)"
    show ?thesis
    proof (cases "f ?c < f ?d")
      case True
      with False Suc.prems
      have "\<bar>snd (minimize_iter f tol n a ?d) - fst (minimize_iter f tol n a ?d)\<bar> < tol"
        by (simp add: Let_def)
      from Suc.IH [OF this] True False show ?thesis by (simp add: Let_def)
    next
      case nless: False
      with False Suc.prems
      have "\<bar>snd (minimize_iter f tol n ?c b) - fst (minimize_iter f tol n ?c b)\<bar> < tol"
        by (simp add: Let_def)
      from Suc.IH [OF this] nless False show ?thesis by (simp add: Let_def)
    qed
  qed
qed

lemma minimize_alt:
  "minimize f a b tol n
     = (fst (minimize_iter f tol n a b) + snd (minimize_iter f tol n a b)) / 2"
  by (simp add: minimize_def split: prod.splits)

lemma minimize_engine_width:
  "\<bar>snd (minimize_iter f (1 / 10000) 27 (- 20) 20) - fst (minimize_iter f (1 / 10000) 27 (- 20) 20)\<bar>
     < 1 / 10000"
proof -
  have gt: "1 / 10000 \<le> \<bar>20 - (- 20 :: real)\<bar> * GR ^ m" if "m < 27" for m
  proof -
    have "GR ^ 26 \<le> GR ^ m"
      using that GR_pos GR_less_1 by (intro power_decreasing) simp_all
    with GR_pow_26 show ?thesis by simp
  qed
  have "\<bar>snd (minimize_iter f (1 / 10000) 27 (- 20) 20) - fst (minimize_iter f (1 / 10000) 27 (- 20) 20)\<bar>
          = \<bar>20 - (- 20 :: real)\<bar> * GR ^ 27"
    using gt by (rule minimize_iter_width)
  with GR_pow_27 show ?thesis by simp
qed

lemma minimize_engine_fuel:
  "27 \<le> n \<Longrightarrow> minimize f (- 20) 20 (1 / 10000) n = minimize f (- 20) 20 (1 / 10000) 27"
  using minimize_iter_more_fuel [OF minimize_engine_width, of f "n - 27"]
  by (simp add: minimize_alt)

lemma minimize_in_bracket:
  assumes "a \<le> b"
  shows "a \<le> minimize f a b tol n" and "minimize f a b tol n \<le> b"
  using minimize_iter_bracket [OF assms, of f tol n]
  by (simp_all add: minimize_alt)

section \<open>The bisection loop: iteration count, bracket, the specification's root finder\<close>

lemma bisect_loop_iter_le:
  "iter \<le> 100 \<Longrightarrow> fst (snd (snd (bisect_loop f low high iter mid))) \<le> 100"
proof (induction f low high iter mid rule: bisect_loop.induct)
  case (1 f low high iter mid)
  show ?case
  proof (cases "iter < 100")
    case True
    then show ?thesis
      using "1.IH" by (subst bisect_loop.simps) (simp add: Let_def)
  next
    case False
    with "1.prems" show ?thesis by (subst bisect_loop.simps) simp
  qed
qed

lemma bisect_loop_below:
  "low < high \<Longrightarrow> high \<le> H \<Longrightarrow> mid < H \<Longrightarrow>
     snd (snd (snd (bisect_loop f low high iter mid))) < H"
proof (induction f low high iter mid rule: bisect_loop.induct)
  case (1 f low high iter mid)
  let ?m = "(low + high) / 2"
  have m: "low < ?m" "?m < high" "?m < H" "?m \<le> H"
    using "1.prems" by simp_all
  show ?case
  proof (cases "iter < 100")
    case True
    then show ?thesis
      using "1.IH" "1.prems" m by (subst bisect_loop.simps) (simp add: Let_def)
  next
    case False
    with "1.prems" show ?thesis by (subst bisect_loop.simps) simp
  qed
qed

lemma bisect_loop_above:
  "low \<le> high \<Longrightarrow> L \<le> low \<Longrightarrow> L \<le> mid \<Longrightarrow>
     L \<le> snd (snd (snd (bisect_loop f low high iter mid)))"
proof (induction f low high iter mid rule: bisect_loop.induct)
  case (1 f low high iter mid)
  let ?m = "(low + high) / 2"
  have m: "low \<le> ?m" "?m \<le> high" "L \<le> ?m"
    using "1.prems" by simp_all
  show ?case
  proof (cases "iter < 100")
    case True
    then show ?thesis
      using "1.IH" "1.prems" m by (subst bisect_loop.simps) (simp add: Let_def)
  next
    case False
    with "1.prems" show ?thesis by (subst bisect_loop.simps) simp
  qed
qed

lemma bisect_loop_le:
  "low \<le> high \<Longrightarrow> high \<le> H \<Longrightarrow> mid \<le> H \<Longrightarrow>
     snd (snd (snd (bisect_loop f low high iter mid))) \<le> H"
proof (induction f low high iter mid rule: bisect_loop.induct)
  case (1 f low high iter mid)
  let ?m = "(low + high) / 2"
  have m: "low \<le> ?m" "?m \<le> high" "?m \<le> H"
    using "1.prems" by simp_all
  show ?case
  proof (cases "iter < 100")
    case True
    then show ?thesis
      using "1.IH" "1.prems" m by (subst bisect_loop.simps) (simp add: Let_def)
  next
    case False
    with "1.prems" show ?thesis by (subst bisect_loop.simps) simp
  qed
qed

lemma bisect_loop_findRoot_iter:
  "iter \<le> 100 \<Longrightarrow>
   snd (snd (snd (bisect_loop f low high iter mid)))
     = findRoot_iter f (1 / 1000000) (100 - iter) low high mid"
proof (induction f low high iter mid rule: bisect_loop.induct)
  case (1 f low high iter mid)
  show ?case
  proof (cases "iter < 100")
    case True
    then obtain n where n: "100 - iter = Suc n" "100 - (iter + 1) = n"
      by (cases "100 - iter") auto
    show ?thesis
      using True "1.IH" n by (subst bisect_loop.simps) (simp add: Let_def)
  next
    case False
    with "1.prems" show ?thesis by (subst bisect_loop.simps) simp
  qed
qed

lemma solveAffineLambda_unfold:
  "solveAffineLambda k sigma =
     (if solveAffineLambda_f k sigma 0 * solveAffineLambda_f k sigma sigma > 0 then 0
      else snd (snd (snd (bisect_loop (solveAffineLambda_f k sigma) 0 sigma 0 0))) / sigma)"
  by (simp add: solveAffineLambda_def Let_def split: prod.splits)

lemma solveAffineLambda_findRoot:
  "solveAffineLambda k sigma = findRoot (solveAffineLambda_f k sigma) 0 sigma (1 / 1000000) 100 / sigma"
  using bisect_loop_findRoot_iter [of 0 "solveAffineLambda_f k sigma" 0 sigma 0]
  by (simp add: solveAffineLambda_unfold findRoot_def)

lemma solveAffineLambda_range:
  assumes "0 < sigma"
  shows "0 \<le> solveAffineLambda k sigma" and "solveAffineLambda k sigma \<le> 1"
proof -
  let ?m = "snd (snd (snd (bisect_loop (solveAffineLambda_f k sigma) 0 sigma 0 0)))"
  have "0 \<le> ?m" by (rule bisect_loop_above) (use assms in simp_all)
  moreover have "?m \<le> sigma" by (rule bisect_loop_le) (use assms in simp_all)
  ultimately show "0 \<le> solveAffineLambda k sigma" and "solveAffineLambda k sigma \<le> 1"
    using assms by (simp_all add: solveAffineLambda_unfold)
qed

lemma integrate_opt_loop_total:
  "integrate_opt_loop (\<lambda>x. Some (f x)) mn h n i acc = Some (integrate_loop f mn h n i acc)"
proof (induction f mn h n i acc rule: integrate_loop.induct)
  case (1 func mn h n i acc)
  show ?case
  proof (cases "i < n")
    case True
    then show ?thesis
      using "1.IH"
      by (subst integrate_opt_loop.simps, subst integrate_loop.simps) simp
  next
    case False
    then show ?thesis
      by (subst integrate_opt_loop.simps, subst integrate_loop.simps) simp
  qed
qed

lemma integrate_opt_total:
  assumes "\<And>x. g x = Some (f x)"
  shows "integrate_opt g mn mx n = Some (integrate f mn mx n)"
proof -
  from assms have "g = (\<lambda>x. Some (f x))" by auto
  then show ?thesis
    by (simp add: integrate_opt_def integrate_def Let_def integrate_opt_loop_total)
qed

section \<open>Bounds for the quadrature and for the auxiliary function\<close>

lemma integrate_unfold:
  "integrate f mn mx n =
     (f mn + f mx + (\<Sum>j = 1..<n. f (mn + real j * ((mx - mn) / real n)) * (if j mod 2 = 0 then 2 else 4)))
       * ((mx - mn) / real n) / 3"
  by (simp add: integrate_def Let_def integrate_loop_sum)

lemma integrate_nonneg:
  assumes "\<And>x. 0 \<le> f x" and "mn \<le> mx"
  shows "0 \<le> integrate f mn mx n"
proof -
  let ?h = "(mx - mn) / real n"
  have "0 \<le> (\<Sum>j = 1..<n. f (mn + real j * ?h) * (if j mod 2 = 0 then 2 else 4))"
    by (rule sum_nonneg) (simp add: assms)
  then have "0 \<le> f mn + f mx + (\<Sum>j = 1..<n. f (mn + real j * ?h) * (if j mod 2 = 0 then 2 else 4))"
    using assms(1) [of mn] assms(1) [of mx] by linarith
  moreover have "0 \<le> ?h" using assms by simp
  ultimately have "0 \<le> (f mn + f mx + (\<Sum>j = 1..<n. f (mn + real j * ?h) * (if j mod 2 = 0 then 2 else 4))) * ?h"
    by (rule mult_nonneg_nonneg)
  then show ?thesis
    unfolding integrate_unfold by simp
qed

lemma integrate_mono:
  assumes "\<And>x. f x \<le> g x" and "mn \<le> mx"
  shows "integrate f mn mx n \<le> integrate g mn mx n"
proof -
  let ?h = "(mx - mn) / real n"
  have "(\<Sum>j = 1..<n. f (mn + real j * ?h) * (if j mod 2 = 0 then 2 else 4))
      \<le> (\<Sum>j = 1..<n. g (mn + real j * ?h) * (if j mod 2 = 0 then 2 else 4))"
    by (rule sum_mono) (simp add: assms)
  then have "f mn + f mx + (\<Sum>j = 1..<n. f (mn + real j * ?h) * (if j mod 2 = 0 then 2 else 4))
      \<le> g mn + g mx + (\<Sum>j = 1..<n. g (mn + real j * ?h) * (if j mod 2 = 0 then 2 else 4))"
    using assms(1) [of mn] assms(1) [of mx] by linarith
  moreover have "0 \<le> ?h" using assms by simp
  ultimately have "(f mn + f mx + (\<Sum>j = 1..<n. f (mn + real j * ?h) * (if j mod 2 = 0 then 2 else 4))) * ?h
      \<le> (g mn + g mx + (\<Sum>j = 1..<n. g (mn + real j * ?h) * (if j mod 2 = 0 then 2 else 4))) * ?h"
    by (rule mult_right_mono)
  then show ?thesis
    unfolding integrate_unfold by simp
qed

lemma integrate_const:
  assumes "even n" and "2 \<le> n"
  shows "integrate (\<lambda>x. c) a b n = c * (b - a)"
proof -
  have "cubic c 0 0 0 = (\<lambda>x. c)" by (simp add: cubic_def fun_eq_iff)
  with integrate_cubic_primitive [OF assms, of c 0 0 0 a b] show ?thesis
    by (simp add: cubic_primitive_def algebra_simps)
qed

lemma calculateH_integrand_bounds:
  fixes a y :: real
  shows "0 \<le> exp (- 0.5 * y * y) / cosh (a * y)" and "exp (- 0.5 * y * y) / cosh (a * y) \<le> 1"
proof -
  have c: "1 \<le> cosh (a * y)" by (rule cosh_real_ge_1)
  then show "0 \<le> exp (- 0.5 * y * y) / cosh (a * y)" by simp
  have "- 0.5 * y * y \<le> 0" using zero_le_square [of y] by simp
  then have "exp (- 0.5 * y * y) \<le> 1" by (simp only: exp_le_one_iff)
  with c have "exp (- 0.5 * y * y) \<le> cosh (a * y)" by linarith
  moreover have "0 < cosh (a * y)" by (rule cosh_real_pos)
  ultimately show "exp (- 0.5 * y * y) / cosh (a * y) \<le> 1"
    by (simp only: divide_le_eq_1_pos)
qed

lemma calculateH_nonneg: "0 \<le> calculateH a"
proof -
  have "0 \<le> integrate (\<lambda>y. exp (- 0.5 * y * y) / cosh (a * y)) (- 10) 10 200"
  proof (rule integrate_nonneg)
    show "0 \<le> exp (- 0.5 * x * x) / cosh (a * x)" for x
      by (rule calculateH_integrand_bounds(1))
  qed simp
  then show ?thesis by (simp add: calculateH_def Let_def)
qed

lemma calculateH_upper: "calculateH a \<le> a * a * exp (- 0.5 * a * a) * 20"
proof -
  have "integrate (\<lambda>y. exp (- 0.5 * y * y) / cosh (a * y)) (- 10) 10 200
          \<le> integrate (\<lambda>y. 1) (- 10) 10 200"
  proof (rule integrate_mono)
    show "exp (- 0.5 * x * x) / cosh (a * x) \<le> 1" for x
      by (rule calculateH_integrand_bounds(2))
  qed simp
  also have "\<dots> = 20" by (simp add: integrate_const)
  finally have "a * a * exp (- 0.5 * a * a) * integrate (\<lambda>y. exp (- 0.5 * y * y) / cosh (a * y)) (- 10) 10 200
        \<le> a * a * exp (- 0.5 * a * a) * 20"
    by (intro mult_left_mono) simp_all
  then show ?thesis by (simp add: calculateH_def Let_def)
qed

lemma phi_nonneg: "0 \<le> phi z"
  by (simp add: phi_def)

lemma costFunc_nonneg: "0 \<le> costFunc xi k a"
  by (simp add: costFunc_def calculateH_nonneg)

lemma sqrt_two_over_pi_le_1: "sqrt (2 / pi) \<le> 1"
proof -
  have "2 / pi \<le> 1" using pi_ge_two by simp
  then show ?thesis by simp
qed

section \<open>The cost model returns; its three formulas\<close>

lemma calculateVk_returns:
  "\<exists>a. goldenSectionSearch (costFunc xi k) (- 20) 20 (1 / 10000) = Some a
        \<and> calculateVk xi k = Some (costFunc xi k a)"
proof -
  have "goldenSectionSearch (costFunc xi k) (- 20) 20 (1 / 10000) \<noteq> None"
    by (rule goldenSectionSearch_returns) simp
  then show ?thesis by (auto simp: calculateVk_def)
qed

lemma calculateLowerBound_returns:
  "\<exists>optimalA.
     (\<forall>xi. goldenSectionSearch (costFunc xi k) (- 20) 20 (1 / 10000) = Some (optimalA xi)) \<and>
     calculateLowerBound k sigma
       = Some (2 * integrate (\<lambda>z. phi z * costFunc (sigma * z) k (optimalA (sigma * z))) 0 5 50)"
proof -
  define optimalA where
    "optimalA xi = the (goldenSectionSearch (costFunc xi k) (- 20) 20 (1 / 10000))" for xi
  have A: "goldenSectionSearch (costFunc xi k) (- 20) 20 (1 / 10000) = Some (optimalA xi)" for xi
    using calculateVk_returns [of xi k] by (auto simp: optimalA_def)
  then have V: "calculateVk xi k = Some (costFunc xi k (optimalA xi))" for xi
    by (simp add: calculateVk_def)
  have "integrate_opt (\<lambda>z. case calculateVk (sigma * z) k of None \<Rightarrow> None
                              | Some v \<Rightarrow> Some (phi z * v)) 0 5 50
        = Some (integrate (\<lambda>z. phi z * costFunc (sigma * z) k (optimalA (sigma * z))) 0 5 50)"
    by (rule integrate_opt_total) (simp add: V)
  then have "calculateLowerBound k sigma
       = Some (2 * integrate (\<lambda>z. phi z * costFunc (sigma * z) k (optimalA (sigma * z))) 0 5 50)"
    by (simp add: calculateLowerBound_def)
  with A show ?thesis by blast
qed

lemma calculateCosts_returns:
  "\<exists>lb. calculateLowerBound k sigma = Some lb \<and>
     calculateCosts k sigma =
       Some \<lparr>lambda = solveAffineLambda k sigma,
             affineCost = (k * k * sigma * sigma * (1 - solveAffineLambda k sigma) ^ 2) +
               (sigma * sigma * solveAffineLambda k sigma * solveAffineLambda k sigma) /
               (1 + sigma * sigma * solveAffineLambda k sigma * solveAffineLambda k sigma),
             nonlinCost = 2 * k * k * sigma * sigma * (1 - sqrt (2 / pi)) + calculateH sigma,
             lowerBound = lb\<rparr>"
proof -
  from calculateLowerBound_returns [of k sigma] obtain lb
    where "calculateLowerBound k sigma = Some lb" by blast
  then show ?thesis by (simp add: calculateCosts_def Let_def)
qed

text \<open>
  C2. For every \<open>k > 0\<close> and \<open>sigma > 0\<close>, the
  \<open>affineCost\<close> returned by \<open>calculateCosts\<close> is
  \<open>k\<^sup>2 sigma\<^sup>2 (1 - lambda)\<^sup>2 + sigma\<^sup>2 lambda\<^sup>2 / (1 + sigma\<^sup>2 lambda\<^sup>2)\<close> with \<open>lambda = t / sigma\<close>,
  where \<open>t\<close> is what the root finder of the specification gives for
  \<open>(t - sigma) (1 + t\<^sup>2)\<^sup>2 + t / k\<^sup>2\<close> on the bracket \<open>[0, sigma]\<close> with tolerance \<open>1e-6\<close>
  and at most 100 iterations; that \<open>lambda\<close> is the \<open>lambda\<close> returned.
\<close>
theorem affineCost_formula:
  assumes "0 < k" and "0 < sigma"
  shows "map_option affineCost (calculateCosts k sigma) =
     Some (let t = findRoot (\<lambda>t. (t - sigma) * (1 + t ^ 2) ^ 2 + t / k ^ 2) 0 sigma (1 / 1000000) 100;
               lam = t / sigma
           in k ^ 2 * sigma ^ 2 * (1 - lam) ^ 2 + sigma ^ 2 * lam ^ 2 / (1 + sigma ^ 2 * lam ^ 2))
   \<and> map_option lambda (calculateCosts k sigma) =
     Some (findRoot (\<lambda>t. (t - sigma) * (1 + t ^ 2) ^ 2 + t / k ^ 2) 0 sigma (1 / 1000000) 100 / sigma)"
proof -
  have f: "solveAffineLambda_f k sigma = (\<lambda>t. (t - sigma) * (1 + t ^ 2) ^ 2 + t / k ^ 2)"
    by (simp add: solveAffineLambda_f_def fun_eq_iff power2_eq_square)
  from calculateCosts_returns [of k sigma] obtain lb where
    "calculateCosts k sigma =
       Some \<lparr>lambda = solveAffineLambda k sigma,
             affineCost = (k * k * sigma * sigma * (1 - solveAffineLambda k sigma) ^ 2) +
               (sigma * sigma * solveAffineLambda k sigma * solveAffineLambda k sigma) /
               (1 + sigma * sigma * solveAffineLambda k sigma * solveAffineLambda k sigma),
             nonlinCost = 2 * k * k * sigma * sigma * (1 - sqrt (2 / pi)) + calculateH sigma,
             lowerBound = lb\<rparr>" by blast
  then show ?thesis
    unfolding solveAffineLambda_findRoot f
    by (simp add: Let_def power2_eq_square mult.assoc)
qed

theorem affineCost_formula_witness:
  "(0::real) < 1 \<and>
   map_option affineCost (calculateCosts 1 1) =
     Some (let t = findRoot (\<lambda>t. (t - 1) * (1 + t ^ 2) ^ 2 + t / 1 ^ 2) 0 1 (1 / 1000000) 100;
               lam = t / 1
           in 1 ^ 2 * 1 ^ 2 * (1 - lam) ^ 2 + 1 ^ 2 * lam ^ 2 / (1 + 1 ^ 2 * lam ^ 2)) \<and>
   map_option lambda (calculateCosts 1 1) =
     Some (findRoot (\<lambda>t. (t - 1) * (1 + t ^ 2) ^ 2 + t / 1 ^ 2) 0 1 (1 / 1000000) 100 / 1)"
proof -
  have one: "(0::real) < 1" by simp
  from one affineCost_formula [OF one one] show ?thesis by (rule conjI)
qed

text \<open>
  C4. For every \<open>k > 0\<close> and \<open>sigma > 0\<close>, the \<open>nonlinCost\<close> returned by \<open>calculateCosts\<close> is
  \<open>2 k\<^sup>2 sigma\<^sup>2 (1 - sqrt (2 / pi)) + h sigma\<close>, and \<open>h a\<close> is \<open>a\<^sup>2 exp (- a\<^sup>2 / 2)\<close> times the
  Simpson quadrature with \<open>n = 200\<close> over \<open>[-10, 10]\<close> of \<open>exp (- y\<^sup>2 / 2) / cosh (a y)\<close>
  (for \<open>a = 0\<close> both sides are 0).
\<close>
theorem nonlinCost_formula:
  assumes "0 < k" and "0 < sigma"
  shows "map_option nonlinCost (calculateCosts k sigma) =
     Some (2 * k ^ 2 * sigma ^ 2 * (1 - sqrt (2 / pi)) + calculateH sigma)
   \<and> calculateH a =
       a ^ 2 * exp (- (a ^ 2) / 2) * simpson_rule (\<lambda>y. exp (- (y ^ 2) / 2) / cosh (a * y)) (- 10) 10 200"
proof -
  from calculateCosts_returns [of k sigma] obtain r where
    "calculateCosts k sigma = Some r"
    "nonlinCost r = 2 * k * k * sigma * sigma * (1 - sqrt (2 / pi)) + calculateH sigma" by force
  then have 1: "map_option nonlinCost (calculateCosts k sigma) =
     Some (2 * k ^ 2 * sigma ^ 2 * (1 - sqrt (2 / pi)) + calculateH sigma)"
    by (simp add: power2_eq_square mult.assoc)
  have e: "(\<lambda>y. exp (- 0.5 * y * y) / cosh (a * y)) = (\<lambda>y. exp (- (y ^ 2) / 2) / cosh (a * y))"
    by (simp add: fun_eq_iff power2_eq_square)
  have 2: "calculateH a =
       a ^ 2 * exp (- (a ^ 2) / 2) * simpson_rule (\<lambda>y. exp (- (y ^ 2) / 2) / cosh (a * y)) (- 10) 10 200"
    by (simp add: calculateH_def Let_def e integrate_simpson_rule power2_eq_square)
  from 1 2 show ?thesis ..
qed

theorem nonlinCost_formula_witness:
  "(0::real) < 1 \<and>
   map_option nonlinCost (calculateCosts 1 1) =
     Some (2 * 1 ^ 2 * 1 ^ 2 * (1 - sqrt (2 / pi)) + calculateH 1) \<and>
   calculateH 1 =
     1 ^ 2 * exp (- (1 ^ 2) / 2) * simpson_rule (\<lambda>y. exp (- (y ^ 2) / 2) / cosh (1 * y)) (- 10) 10 200"
proof -
  have one: "(0::real) < 1" by simp
  from one nonlinCost_formula [OF one one, of 1] show ?thesis by (rule conjI)
qed

lemma costFunc_spec: "costFunc xi k = (\<lambda>a. k ^ 2 * (a - xi) ^ 2 + calculateH a)"
  by (simp add: costFunc_def fun_eq_iff power2_eq_square)

lemma calculateVk_Vk: "calculateVk xi k = Some (Vk xi k)"
  using goldenSectionSearch_engine [of "costFunc xi k"]
  by (simp add: calculateVk_def Vk_def Let_def costFunc_spec)

lemma calculateLowerBound_Vk:
  "calculateLowerBound k sigma = Some (2 * integrate (\<lambda>z. phi z * Vk (sigma * z) k) 0 5 50)"
proof -
  have "integrate_opt (\<lambda>z. case calculateVk (sigma * z) k of None \<Rightarrow> None
                              | Some v \<Rightarrow> Some (phi z * v)) 0 5 50
        = Some (integrate (\<lambda>z. phi z * Vk (sigma * z) k) 0 5 50)"
    by (rule integrate_opt_total) (simp add: calculateVk_Vk)
  then show ?thesis by (simp add: calculateLowerBound_def)
qed


text \<open>
  C3. For every \<open>k > 0\<close> and \<open>sigma > 0\<close>: the golden-section search of the code over
  \<open>[-20, 20]\<close> with tolerance \<open>1e-4\<close> returns, for every \<open>xi\<close>, the point of the
  specification's minimizer (after 27 steps the bracket is narrower than the
  tolerance, and more steps change nothing); \<open>calculateVk xi k\<close> is \<open>Vk xi k\<close>, the value of \<open>k\<^sup>2 (a - xi)\<^sup>2 + h a\<close> at that
  point; and the \<open>lowerBound\<close> returned by \<open>calculateCosts\<close> is twice the Simpson
  quadrature with \<open>n = 50\<close> over \<open>[0, 5]\<close> of \<open>phi z * Vk (sigma z) k\<close>, where
  \<open>phi z = (1 / sqrt (2 pi)) exp (- z\<^sup>2 / 2)\<close>.
\<close>

theorem lowerBound_formula:
  assumes "0 < k" and "0 < sigma"
  shows
    "(\<forall>xi. goldenSectionSearch (\<lambda>a. k ^ 2 * (a - xi) ^ 2 + calculateH a) (- 20) 20 (1 / 10000)
            = Some (minimize (\<lambda>a. k ^ 2 * (a - xi) ^ 2 + calculateH a) (- 20) 20 (1 / 10000) 27)) \<and>
     (\<forall>f. \<bar>snd (minimize_iter f (1 / 10000) 27 (- 20) 20)
            - fst (minimize_iter f (1 / 10000) 27 (- 20) 20)\<bar> < 1 / 10000) \<and>
     (\<forall>f n. 27 \<le> n \<longrightarrow>
        minimize f (- 20) 20 (1 / 10000) n = minimize f (- 20) 20 (1 / 10000) 27) \<and>
     (\<forall>xi. calculateVk xi k = Some (Vk xi k)) \<and>
     map_option lowerBound (calculateCosts k sigma)
       = Some (2 * simpson_rule
                 (\<lambda>z. (1 / sqrt (2 * pi)) * exp (- (z ^ 2) / 2) * Vk (sigma * z) k) 0 5 50)"
proof (intro conjI allI impI)
  show "goldenSectionSearch (\<lambda>a. k ^ 2 * (a - xi) ^ 2 + calculateH a) (- 20) 20 (1 / 10000)
            = Some (minimize (\<lambda>a. k ^ 2 * (a - xi) ^ 2 + calculateH a) (- 20) 20 (1 / 10000) 27)" for xi
    by (rule goldenSectionSearch_engine)
  show "\<bar>snd (minimize_iter f (1 / 10000) 27 (- 20) 20)
            - fst (minimize_iter f (1 / 10000) 27 (- 20) 20)\<bar> < 1 / 10000" for f
    by (rule minimize_engine_width)
  show "minimize f (- 20) 20 (1 / 10000) n = minimize f (- 20) 20 (1 / 10000) 27"
    if "27 \<le> n" for f n
    using that by (rule minimize_engine_fuel)
  show "calculateVk xi k = Some (Vk xi k)" for xi
    by (rule calculateVk_Vk)
  have p: "phi z = (1 / sqrt (2 * pi)) * exp (- (z ^ 2) / 2)" for z
    by (simp add: phi_def power2_eq_square)
  have "map_option lowerBound (calculateCosts k sigma)
       = Some (2 * integrate (\<lambda>z. phi z * Vk (sigma * z) k) 0 5 50)"
    by (simp add: calculateCosts_def Let_def calculateLowerBound_Vk)
  then show "map_option lowerBound (calculateCosts k sigma)
       = Some (2 * simpson_rule
                 (\<lambda>z. (1 / sqrt (2 * pi)) * exp (- (z ^ 2) / 2) * Vk (sigma * z) k) 0 5 50)"
    unfolding p integrate_simpson_rule .
qed

theorem lowerBound_formula_witness:
  "(0::real) < 1 \<and>
   (\<forall>xi. goldenSectionSearch (\<lambda>a. 1 ^ 2 * (a - xi) ^ 2 + calculateH a) (- 20) 20 (1 / 10000)
          = Some (minimize (\<lambda>a. 1 ^ 2 * (a - xi) ^ 2 + calculateH a) (- 20) 20 (1 / 10000) 27)) \<and>
   (\<forall>f. minimize f (- 20) 20 (1 / 10000) 30 = minimize f (- 20) 20 (1 / 10000) 27) \<and>
   (\<forall>xi. calculateVk xi 1 = Some (Vk xi 1)) \<and>
   map_option lowerBound (calculateCosts 1 1)
     = Some (2 * simpson_rule
               (\<lambda>z. (1 / sqrt (2 * pi)) * exp (- (z ^ 2) / 2) * Vk (1 * z) 1) 0 5 50)"
proof -
  have one: "(0::real) < 1" by simp
  note inst = lowerBound_formula [OF one one]
  from inst have search:
    "\<forall>xi. goldenSectionSearch (\<lambda>a. 1 ^ 2 * (a - xi) ^ 2 + calculateH a) (- 20) 20 (1 / 10000)
          = Some (minimize (\<lambda>a. 1 ^ 2 * (a - xi) ^ 2 + calculateH a) (- 20) 20 (1 / 10000) 27)"
    by (elim conjE)
  from inst have more: "\<forall>f n. 27 \<le> n \<longrightarrow>
        minimize f (- 20) 20 (1 / 10000) n = minimize f (- 20) 20 (1 / 10000) 27"
    by (elim conjE)
  have fuel: "\<forall>f. minimize f (- 20) 20 (1 / 10000) 30 = minimize f (- 20) 20 (1 / 10000) 27"
  proof
    fix f
    have le: "27 \<le> (30::nat)" by simp
    from more have "27 \<le> (30::nat) \<longrightarrow>
        minimize f (- 20) 20 (1 / 10000) 30 = minimize f (- 20) 20 (1 / 10000) 27"
      by blast
    from this le show "minimize f (- 20) 20 (1 / 10000) 30 = minimize f (- 20) 20 (1 / 10000) 27"
      by (rule mp)
  qed
  from inst have vk: "\<forall>xi. calculateVk xi 1 = Some (Vk xi 1)"
    by (elim conjE)
  from inst have lb: "map_option lowerBound (calculateCosts 1 1)
     = Some (2 * simpson_rule
               (\<lambda>z. (1 / sqrt (2 * pi)) * exp (- (z ^ 2) / 2) * Vk (1 * z) 1) 0 5 50)"
    by (elim conjE)
  from one search fuel vk lb show ?thesis by (intro conjI)
qed

section \<open>The no-bracket guard\<close>

text \<open>
  At the ends of the bracket \<open>[0, sigma]\<close> the closure \<open>f\<close> of \<open>solveAffineLambda\<close> has
  the values \<open>- sigma\<close> and \<open>sigma / k\<^sup>2\<close>, so the product tested by the guard is never
  positive.
\<close>

lemma solveAffineLambda_f_ends:
  "solveAffineLambda_f k sigma 0 * solveAffineLambda_f k sigma sigma = - (sigma ^ 2 / k ^ 2)"
  by (simp add: solveAffineLambda_f_def power2_eq_square)

lemma no_bracket_never:
  "\<not> solveAffineLambda_f k sigma 0 * solveAffineLambda_f k sigma sigma > 0"
proof -
  have "0 \<le> sigma ^ 2 / k ^ 2" by (intro divide_nonneg_nonneg zero_le_power2)
  then show ?thesis unfolding solveAffineLambda_f_ends by linarith
qed

section \<open>The two loops: iteration cap and return\<close>

lemma bisect_loop_exit:
  "iter \<le> 100 \<Longrightarrow>
     fst (snd (snd (bisect_loop f low high iter mid))) = 100
     \<or> \<bar>f (snd (snd (snd (bisect_loop f low high iter mid))))\<bar> < 1 / 1000000"
proof (induction f low high iter mid rule: bisect_loop.induct)
  case (1 f low high iter mid)
  show ?case
  proof (cases "iter < 100")
    case True
    then show ?thesis
      using "1.IH" by (subst (1 2) bisect_loop.simps) (simp add: Let_def)
  next
    case False
    with "1.prems" show ?thesis by (subst bisect_loop.simps) simp
  qed
qed


text \<open>
  C5. Not both loops end after a fixed iteration cap for every tolerance: the loop of
  \<open>goldenSectionSearch\<close> has no cap, and with the tolerance \<open>-1\<close> it never returns.
\<close>

theorem goldenSectionSearch_no_cap: "goldenSectionSearch (\<lambda>x. x) 0 1 (- 1) = None"
  using goldenSectionSearch_returns_iff [of "\<lambda>x. x" 0 1 "- 1"] by simp

text \<open>
  C5, as amended. The bisection loop of \<open>solveAffineLambda\<close> ends for every function
  and bracket after at most 100 iterations, at the cap or because the tolerance test
  succeeded, and the \<open>mid\<close> it leaves is the result of the specification's bisection
  with 100 iterations: the last midpoint computed, whether or not the tolerance was
  met; for \<open>k > 0\<close> and \<open>sigma > 0\<close>, \<open>solveAffineLambda\<close> returns it divided by \<open>sigma\<close>.
  \<open>goldenSectionSearch\<close> has no iteration cap, and for a negative tolerance it never
  returns.
\<close>

theorem loops_return:
  "fst (snd (snd (bisect_loop f low high 0 0))) \<le> 100
   \<and> (fst (snd (snd (bisect_loop f low high 0 0))) = 100
        \<or> \<bar>f (snd (snd (snd (bisect_loop f low high 0 0))))\<bar> < 1 / 1000000)
   \<and> snd (snd (snd (bisect_loop f low high 0 0))) = findRoot_iter f (1 / 1000000) 100 low high 0
   \<and> (0 < k \<and> 0 < sigma \<longrightarrow>
        solveAffineLambda k sigma
          = snd (snd (snd (bisect_loop (solveAffineLambda_f k sigma) 0 sigma 0 0))) / sigma)
   \<and> (tol < 0 \<longrightarrow> goldenSectionSearch g a b tol = None)"
proof (intro conjI impI)
  show "solveAffineLambda k sigma
          = snd (snd (snd (bisect_loop (solveAffineLambda_f k sigma) 0 sigma 0 0))) / sigma"
    using no_bracket_never [of k sigma] by (simp add: solveAffineLambda_unfold)
  show "fst (snd (snd (bisect_loop f low high 0 0))) \<le> 100"
    by (rule bisect_loop_iter_le) simp
  show "fst (snd (snd (bisect_loop f low high 0 0))) = 100
        \<or> \<bar>f (snd (snd (snd (bisect_loop f low high 0 0))))\<bar> < 1 / 1000000"
    by (rule bisect_loop_exit) simp
  show "snd (snd (snd (bisect_loop f low high 0 0))) = findRoot_iter f (1 / 1000000) 100 low high 0"
    using bisect_loop_findRoot_iter [of 0 f low high 0] by simp
  show "goldenSectionSearch g a b tol = None" if "tol < 0"
  proof (rule ccontr)
    assume "goldenSectionSearch g a b tol \<noteq> None"
    then have "0 < tol \<or> \<bar>b - a\<bar> \<le> tol"
      by (simp only: goldenSectionSearch_returns_iff)
    with that show False by linarith
  qed
qed

theorem loops_return_witness:
  "(- 5 :: real) < 0 \<and> goldenSectionSearch (\<lambda>x. 0) 2 3 (- 5) = None \<and>
   (0 :: real) < 1 \<and>
   solveAffineLambda 1 1 = snd (snd (snd (bisect_loop (solveAffineLambda_f 1 1) 0 1 0 0))) / 1 \<and>
   snd (snd (snd (bisect_loop (\<lambda>t. t - 1) 0 4 0 0)))
     = findRoot_iter (\<lambda>t. t - 1) (1 / 1000000) 100 0 4 0"
  using loops_return [of "\<lambda>t. t - 1" 0 4 1 1 "- 5" "\<lambda>x. 0" 2 3] by simp

section \<open>Ranges of the cost result\<close>

lemma affineCost_nonneg:
  fixes k sigma lam :: real
  shows "0 \<le> (k * k * sigma * sigma * (1 - lam) ^ 2) +
               (sigma * sigma * lam * lam) / (1 + sigma * sigma * lam * lam)"
proof -
  have s: "sigma * sigma * lam * lam = (sigma * lam) ^ 2"
    by (simp add: power2_eq_square algebra_simps)
  have "k * k * sigma * sigma * (1 - lam) ^ 2 = (k * sigma * (1 - lam)) ^ 2"
    by (simp add: power2_eq_square algebra_simps)
  then have "0 \<le> k * k * sigma * sigma * (1 - lam) ^ 2" by simp
  moreover have "0 \<le> (sigma * sigma * lam * lam) / (1 + sigma * sigma * lam * lam)"
    unfolding s by (intro divide_nonneg_nonneg add_nonneg_nonneg) simp_all
  ultimately show ?thesis by (rule add_nonneg_nonneg)
qed

lemma nonlinCost_nonneg:
  fixes k sigma :: real
  shows "0 \<le> 2 * k * k * sigma * sigma * (1 - sqrt (2 / pi)) + calculateH sigma"
proof -
  have "2 * k * k * sigma * sigma * (1 - sqrt (2 / pi)) = 2 * (k * sigma) ^ 2 * (1 - sqrt (2 / pi))"
    by (simp add: power2_eq_square algebra_simps)
  moreover have "0 \<le> 2 * (k * sigma) ^ 2 * (1 - sqrt (2 / pi))"
    using sqrt_two_over_pi_le_1 by (intro mult_nonneg_nonneg) simp_all
  ultimately show ?thesis using calculateH_nonneg [of sigma] by linarith
qed

lemma integrate_node_in_range:
  assumes "mn \<le> mx" and "j < n"
  shows "mn \<le> mn + real j * ((mx - mn) / real n)" and "mn + real j * ((mx - mn) / real n) \<le> mx"
proof -
  have n: "0 < real n" using assms(2) by simp
  have q: "0 \<le> real j / real n" "real j / real n \<le> 1"
    using assms(2) n by (simp_all add: divide_le_eq)
  have e: "real j * ((mx - mn) / real n) = (real j / real n) * (mx - mn)" by simp
  have "0 \<le> (real j / real n) * (mx - mn)"
    using q(1) assms(1) by (intro mult_nonneg_nonneg) simp_all
  then show "mn \<le> mn + real j * ((mx - mn) / real n)" unfolding e by simp
  have "(real j / real n) * (mx - mn) \<le> 1 * (mx - mn)"
    using q(2) assms(1) by (intro mult_right_mono) simp_all
  then show "mn + real j * ((mx - mn) / real n) \<le> mx" unfolding e by simp
qed

lemma integrate_mono_on:
  assumes le: "\<And>x. mn \<le> x \<Longrightarrow> x \<le> mx \<Longrightarrow> f x \<le> g x" and "mn \<le> mx"
  shows "integrate f mn mx n \<le> integrate g mn mx n"
proof -
  let ?h = "(mx - mn) / real n"
  have "(\<Sum>j = 1..<n. f (mn + real j * ?h) * (if j mod 2 = 0 then 2 else 4))
      \<le> (\<Sum>j = 1..<n. g (mn + real j * ?h) * (if j mod 2 = 0 then 2 else 4))"
  proof (rule sum_mono)
    fix j assume "j \<in> {1..<n}"
    then have "j < n" by simp
    from integrate_node_in_range [OF assms(2) this]
    have "f (mn + real j * ?h) \<le> g (mn + real j * ?h)" by (intro le)
    then show "f (mn + real j * ?h) * (if j mod 2 = 0 then 2 else 4)
           \<le> g (mn + real j * ?h) * (if j mod 2 = 0 then 2 else 4)" by simp
  qed
  moreover have "f mn \<le> g mn" "f mx \<le> g mx" using assms(2) by (auto intro: le)
  ultimately have "f mn + f mx + (\<Sum>j = 1..<n. f (mn + real j * ?h) * (if j mod 2 = 0 then 2 else 4))
      \<le> g mn + g mx + (\<Sum>j = 1..<n. g (mn + real j * ?h) * (if j mod 2 = 0 then 2 else 4))"
    by linarith
  moreover have "0 \<le> ?h" using assms(2) by simp
  ultimately have "(f mn + f mx + (\<Sum>j = 1..<n. f (mn + real j * ?h) * (if j mod 2 = 0 then 2 else 4))) * ?h
      \<le> (g mn + g mx + (\<Sum>j = 1..<n. g (mn + real j * ?h) * (if j mod 2 = 0 then 2 else 4))) * ?h"
    by (rule mult_right_mono)
  then show ?thesis
    unfolding integrate_unfold by simp
qed

lemma phi_le_1: "phi z \<le> 1"
proof -
  have "1 \<le> 2 * pi" using pi_ge_two by simp
  then have "1 \<le> sqrt (2 * pi)" by simp
  then have a: "1 / sqrt (2 * pi) \<le> 1" by simp
  have "- 0.5 * z * z \<le> 0" using zero_le_square [of z] by simp
  then have b: "exp (- 0.5 * z * z) \<le> 1" by (simp only: exp_le_one_iff)
  have "(1 / sqrt (2 * pi)) * exp (- 0.5 * z * z) \<le> 1 * 1"
    using a b by (intro mult_mono) simp_all
  then show ?thesis by (simp only: phi_def mult_1)
qed

lemma calculateH_le: "calculateH a \<le> 20 * (a * a)"
proof -
  have "- 0.5 * a * a \<le> 0" using zero_le_square [of a] by simp
  then have "exp (- 0.5 * a * a) \<le> 1" by (simp only: exp_le_one_iff)
  then have "(a * a) * exp (- 0.5 * a * a) \<le> (a * a) * 1"
    by (intro mult_left_mono) simp_all
  with calculateH_upper [of a] show ?thesis by simp
qed

lemma square_le: "\<bar>x\<bar> \<le> c \<Longrightarrow> x * x \<le> c * c" for x c :: real
  using abs_le_square_iff [of x c] by (simp add: power2_eq_square)

lemma Vk_bounds:
  assumes "0 \<le> xi" and "xi \<le> 50" and "\<bar>k\<bar> \<le> 1"
  shows "0 \<le> Vk xi k" and "Vk xi k \<le> 12900"
proof -
  define a where "a = minimize (\<lambda>a. k ^ 2 * (a - xi) ^ 2 + calculateH a) (- 20) 20 (1 / 10000) 27"
  have V: "Vk xi k = k ^ 2 * (a - xi) ^ 2 + calculateH a"
    by (simp add: Vk_def Let_def a_def)
  have ar: "- 20 \<le> a" "a \<le> 20"
    unfolding a_def by (rule minimize_in_bracket; simp)+
  show "0 \<le> Vk xi k" unfolding V using calculateH_nonneg [of a] by simp
  have "a * a \<le> 20 * 20" by (rule square_le) (use ar in simp)
  with calculateH_le [of a] have h: "calculateH a \<le> 8000" by simp
  have "(a - xi) * (a - xi) \<le> 70 * 70" by (rule square_le) (use ar assms in simp)
  then have d: "(a - xi) ^ 2 \<le> 4900" by (simp add: power2_eq_square)
  have "k * k \<le> 1 * 1" by (rule square_le) (use assms in simp)
  then have k1: "k ^ 2 \<le> 1" by (simp add: power2_eq_square)
  have "k ^ 2 * (a - xi) ^ 2 \<le> 1 * 4900"
    using k1 d by (intro mult_mono) simp_all
  with h show "Vk xi k \<le> 12900" unfolding V by simp
qed

lemma lowerBound_bounds:
  assumes "0 \<le> sigma" and "sigma \<le> 10" and "\<bar>k\<bar> \<le> 1"
  shows "\<exists>lb. calculateLowerBound k sigma = Some lb \<and> 0 \<le> lb \<and> lb \<le> 129000"
proof -
  let ?g = "\<lambda>z. phi z * Vk (sigma * z) k"
  have range: "0 \<le> sigma * z" "sigma * z \<le> 50" if "0 \<le> z" "z \<le> 5" for z
  proof -
    show "0 \<le> sigma * z" using assms(1) that(1) by simp
    have "sigma * z \<le> 10 * 5" using assms that by (intro mult_mono) simp_all
    then show "sigma * z \<le> 50" by simp
  qed
  have up: "?g z \<le> 12900" if "0 \<le> z" "z \<le> 5" for z
  proof -
    have "phi z * Vk (sigma * z) k \<le> 1 * 12900"
      using phi_le_1 [of z] phi_nonneg [of z] Vk_bounds [OF range [OF that] assms(3)]
      by (intro mult_mono) simp_all
    then show ?thesis by simp
  qed
  have lo: "0 \<le> ?g z" if "0 \<le> z" "z \<le> 5" for z
    using phi_nonneg [of z] Vk_bounds(1) [OF range [OF that] assms(3)] by simp
  have "integrate (\<lambda>z. 0) 0 5 50 \<le> integrate ?g 0 5 50"
    by (rule integrate_mono_on) (use lo in simp_all)
  then have i0: "0 \<le> integrate ?g 0 5 50" by (simp add: integrate_const)
  have "integrate ?g 0 5 50 \<le> integrate (\<lambda>z. 12900) 0 5 50"
    by (rule integrate_mono_on) (use up in simp_all)
  then have i1: "integrate ?g 0 5 50 \<le> 64500" by (simp add: integrate_const)
  from i0 i1 show ?thesis by (simp add: calculateLowerBound_Vk)
qed


lemma js_plus_PosInfinity: "\<not> isFinite (js_plus PosInfinity s)"
  by (cases s) simp_all

lemma js_times_PosInfinity: "\<not> isFinite (js_times PosInfinity (Finite x))"
  by simp

lemma overflow_Finite: "- double_limit < x \<Longrightarrow> x < double_limit \<Longrightarrow> overflow x = Finite x"
  by (simp add: overflow_def)

lemma overflow_PosInfinity: "double_limit \<le> x \<Longrightarrow> overflow x = PosInfinity"
  by (simp add: overflow_def)

lemma double_limit_pow: "n < 1024 \<Longrightarrow> (2::real) ^ n < double_limit"
  unfolding double_limit_def by (rule power_strict_increasing) simp_all

lemma firstTerm_overflows:
  "\<not> isFinite (firstTerm_double (Finite 1) (Finite (2 ^ 600)))"
proof -
  have pos: "- double_limit < x" if "0 \<le> x" for x
    using double_limit_pow [of 0] that by simp
  have s1: "js_times (Finite 2) (Finite 1) = Finite 2"
    using overflow_Finite [of 2] pos [of 2] double_limit_pow [of 1] by simp
  have s2: "js_times (Finite 2) (Finite (2 ^ 600)) = Finite (2 ^ 601)"
    using overflow_Finite [of "2 ^ 601"] pos [of "2 ^ 601"] double_limit_pow [of 601] by simp
  have "(2::real) ^ 601 * 2 ^ 600 = 2 ^ (1024 + 177)"
    by (simp only: power_add [symmetric]) simp
  also have "\<dots> = double_limit * 2 ^ 177"
    by (simp only: power_add double_limit_def)
  finally have "double_limit \<le> (2::real) ^ 601 * 2 ^ 600"
    using pos [of 0] by simp
  then have s3: "js_times (Finite (2 ^ 601)) (Finite (2 ^ 600)) = PosInfinity"
    by (simp add: overflow_PosInfinity)
  show ?thesis
    unfolding firstTerm_double_def s1 s2 s3 by simp
qed

lemma nonlinCost_double_overflow:
  "\<not> isFinite (nonlinCost_double (Finite 1) (Finite (2 ^ 600)) s)"
proof -
  obtain v where v: "firstTerm_double (Finite 1) (Finite (2 ^ 600)) = v" "\<not> isFinite v"
    using firstTerm_overflows by simp
  then show ?thesis
    unfolding nonlinCost_double_def by (cases v; cases s) simp_all
qed


text \<open>
  C7. The ranges do not hold for every \<open>k > 0\<close> and \<open>sigma > 0\<close>: for \<open>k = 1\<close> and
  \<open>sigma = 2\<^sup>6\<^sup>0\<^sup>0\<close> (a double) the product \<open>2 * k * k * sigma * sigma\<close> overflows, so
  \<open>firstTerm\<close> is not finite and neither is \<open>nonlinCost\<close>; \<open>secondTerm\<close> is NaN there
  (\<open>a * a\<close> is Infinity and \<open>exp (- 0.5 * a * a)\<close> is 0).
\<close>

theorem nonlinCost_not_finite:
  "\<not> isFinite (firstTerm_double (Finite 1) (Finite (2 ^ 600)))
   \<and> \<not> isFinite (nonlinCost_double (Finite 1) (Finite (2 ^ 600)) NaN)"
  using firstTerm_overflows nonlinCost_double_overflow [of NaN] by (rule conjI)

text \<open>
  C7, as amended. For every \<open>k\<close> in \<open>[0.01, 1]\<close> and \<open>sigma\<close> in \<open>[0.5, 10]\<close>, the
  documented operating range, \<open>calculateCosts\<close> returns a result with \<open>affineCost\<close> in
  \<open>[0, 101]\<close>, \<open>nonlinCost\<close> in \<open>[0, 2200]\<close>, \<open>lowerBound\<close> in \<open>[0, 129000]\<close> and \<open>lambda\<close>
  in \<open>[0, 1]\<close>: non-negative, and finite with explicit bounds.
\<close>

theorem costs_ranges:
  assumes "1 / 100 \<le> k" and "k \<le> 1" and "1 / 2 \<le> sigma" and "sigma \<le> 10"
  shows "\<exists>r. calculateCosts k sigma = Some r \<and>
           0 \<le> affineCost r \<and> affineCost r \<le> 101 \<and>
           0 \<le> nonlinCost r \<and> nonlinCost r \<le> 2200 \<and>
           0 \<le> lowerBound r \<and> lowerBound r \<le> 129000 \<and>
           0 \<le> lambda r \<and> lambda r \<le> 1"
proof -
  have kb: "\<bar>k\<bar> \<le> 1" and sp: "0 < sigma" "0 \<le> sigma" using assms by simp_all
  let ?lam = "solveAffineLambda k sigma"
  from lowerBound_bounds [OF sp(2) assms(4) kb] obtain lb where
    lb: "calculateLowerBound k sigma = Some lb" "0 \<le> lb" "lb \<le> 129000" by blast
  define r where "r = \<lparr>lambda = ?lam,
             affineCost = (k * k * sigma * sigma * (1 - ?lam) ^ 2) +
               (sigma * sigma * ?lam * ?lam) / (1 + sigma * sigma * ?lam * ?lam),
             nonlinCost = 2 * k * k * sigma * sigma * (1 - sqrt (2 / pi)) + calculateH sigma,
             lowerBound = lb\<rparr>"
  have ret: "calculateCosts k sigma = Some r"
    using lb(1) by (simp add: calculateCosts_def Let_def r_def)
  have lam: "0 \<le> ?lam" "?lam \<le> 1" by (rule solveAffineLambda_range [OF sp(1)])+
  have kk: "k * k \<le> 1" using square_le [OF kb] by simp
  have ss: "sigma * sigma \<le> 100" using square_le [of sigma 10] assms sp by simp
  have kkss: "k * k * (sigma * sigma) \<le> 1 * 100"
    using kk ss by (intro mult_mono) simp_all
  have l2: "(1 - ?lam) ^ 2 \<le> 1"
    using lam by (simp add: power_le_one)
  have t1: "k * k * sigma * sigma * (1 - ?lam) ^ 2 \<le> 100"
  proof -
    have "(k * k * (sigma * sigma)) * (1 - ?lam) ^ 2 \<le> 100 * 1"
      using kkss l2 by (intro mult_mono) simp_all
    then show ?thesis by (simp add: mult.assoc)
  qed
  have x0: "0 \<le> sigma * sigma * ?lam * ?lam"
    using zero_le_square [of "sigma * ?lam"] by (simp add: algebra_simps)
  then have t2: "(sigma * sigma * ?lam * ?lam) / (1 + sigma * sigma * ?lam * ?lam) \<le> 1"
    by (simp add: divide_le_eq)
  have a_hi: "affineCost r \<le> 101" unfolding r_def using t1 t2 by simp
  have a_lo: "0 \<le> affineCost r" unfolding r_def using affineCost_nonneg by simp
  have f_lo: "0 \<le> 1 - sqrt (2 / pi)" using sqrt_two_over_pi_le_1 by simp
  have f_hi: "1 - sqrt (2 / pi) \<le> 1" by simp
  have ft: "2 * k * k * sigma * sigma * (1 - sqrt (2 / pi)) \<le> 200"
  proof -
    have "(2 * (k * k * (sigma * sigma))) * (1 - sqrt (2 / pi)) \<le> 200 * 1"
      using kkss f_lo f_hi by (intro mult_mono) simp_all
    then show ?thesis by (simp add: mult.assoc)
  qed
  have "calculateH sigma \<le> 20 * (sigma * sigma)" by (rule calculateH_le)
  with ss have hs: "calculateH sigma \<le> 2000" by simp
  have n_hi: "nonlinCost r \<le> 2200" unfolding r_def using ft hs by simp
  have n_lo: "0 \<le> nonlinCost r" unfolding r_def using nonlinCost_nonneg by simp
  have l: "0 \<le> lowerBound r" "lowerBound r \<le> 129000" unfolding r_def using lb by simp_all
  have la: "0 \<le> lambda r" "lambda r \<le> 1" unfolding r_def using lam by simp_all
  from ret a_lo a_hi n_lo n_hi l la show ?thesis by blast
qed

theorem costs_ranges_witness:
  "(1 / 100 :: real) \<le> 1 \<and> (1 / 2 :: real) \<le> 1 \<and> (1 :: real) \<le> 10 \<and>
   (\<exists>r. calculateCosts 1 1 = Some r \<and>
           0 \<le> affineCost r \<and> affineCost r \<le> 101 \<and>
           0 \<le> nonlinCost r \<and> nonlinCost r \<le> 2200 \<and>
           0 \<le> lowerBound r \<and> lowerBound r \<le> 129000 \<and>
           0 \<le> lambda r \<and> lambda r \<le> 1)"
  using costs_ranges [of 1 1] by simp

section \<open>The canonical scenario: k = 0.2, sigma = 5\<close>

lemma exp_minus_25_2: "exp (- (25 / 2) :: real) \<le> 1 / 4096"
proof -
  have "(2::real) \<le> exp 1" using exp_ge_add_one_self [of "1::real"] by simp
  then have "(2::real) ^ 12 \<le> exp 1 ^ 12" by (intro power_mono) simp_all
  also have "\<dots> = exp (of_nat 12 * (1::real))" by (simp only: exp_of_nat_mult)
  also have "\<dots> \<le> exp (25 / 2 :: real)" by simp
  finally have "(4096::real) \<le> exp (25 / 2)" by simp
  then have "inverse (exp (25 / 2 :: real)) \<le> inverse 4096"
    by (intro le_imp_inverse_le) simp_all
  then show ?thesis by (simp add: exp_minus)
qed

lemma sqrt_two_over_pi_ge: "7 / 10 \<le> sqrt (2 / pi)"
proof (rule real_le_rsqrt)
  have "pi * 49 \<le> 200" using pi_less_4 by simp
  then show "(7 / 10 :: real) ^ 2 \<le> 2 / pi"
    by (simp add: power2_eq_square pos_le_divide_eq)
qed

lemma affineCost_canonical_lower:
  fixes lam :: real
  shows "24 / 25 \<le> (1 - lam) ^ 2 + (25 * lam * lam) / (1 + 25 * lam * lam)"
proof -
  have pos: "0 < 1 + 25 * lam * lam"
    using zero_le_square [of lam] by (simp add: mult.assoc add_pos_nonneg)
  have "(1 - lam) ^ 2 + (25 * lam * lam) / (1 + 25 * lam * lam) - 24 / 25
        = (25 * lam * lam - 25 * lam + 1) ^ 2 / (25 * (1 + 25 * lam * lam))"
    using pos by (simp add: field_simps power2_eq_square)
  moreover have "0 \<le> (25 * lam * lam - 25 * lam + 1) ^ 2 / (25 * (1 + 25 * lam * lam))"
    using pos by (intro divide_nonneg_nonneg) simp_all
  ultimately show ?thesis by linarith
qed

lemma nonlinCost_canonical_upper:
  "2 * (1 - sqrt (2 / pi)) + calculateH 5 < 24 / 25"
proof -
  have "calculateH 5 \<le> 5 * 5 * exp (- 0.5 * 5 * 5) * 20" by (rule calculateH_upper)
  also have "\<dots> = 500 * exp (- (25 / 2))" by simp
  also have "\<dots> \<le> 500 * (1 / 4096)"
    using exp_minus_25_2 by (intro mult_left_mono) simp_all
  finally have "calculateH 5 \<le> 500 / 4096" by simp
  with sqrt_two_over_pi_ge show ?thesis by simp
qed

lemma bisect_loop_step_low:
  assumes "iter < 100" and "\<not> \<bar>f ((low + high) / 2)\<bar> < 1 / 1000000"
    and "\<not> f low * f ((low + high) / 2) < 0" and "next_iter = iter + 1"
  shows "bisect_loop f low high iter mid
           = bisect_loop f ((low + high) / 2) high next_iter ((low + high) / 2)"
  using assms by (subst bisect_loop.simps) (simp add: Let_def)

lemma bisect_loop_step_high:
  assumes "iter < 100" and "\<not> \<bar>f ((low + high) / 2)\<bar> < 1 / 1000000"
    and "f low * f ((low + high) / 2) < 0" and "next_iter = iter + 1"
  shows "bisect_loop f low high iter mid
           = bisect_loop f low ((low + high) / 2) next_iter ((low + high) / 2)"
  using assms by (subst bisect_loop.simps) (simp add: Let_def)

lemma canonical_bisection_steps:
  "bisect_loop (solveAffineLambda_f (1 / 5) 5) 0 5 0 0
     = bisect_loop (solveAffineLambda_f (1 / 5) 5) (75 / 16) (155 / 32) 5 (155 / 32)"
proof -
  let ?f = "solveAffineLambda_f (1 / 5) 5"
  have "bisect_loop ?f 0 5 0 0 = bisect_loop ?f (5 / 2) 5 1 (5 / 2)"
    using bisect_loop_step_low [of 0 ?f 0 5 1 0]
    by (simp add: solveAffineLambda_f_def power2_eq_square)
  also have "\<dots> = bisect_loop ?f (15 / 4) 5 2 (15 / 4)"
    using bisect_loop_step_low [of 1 ?f "5 / 2" 5 2 "5 / 2"]
    by (simp add: solveAffineLambda_f_def power2_eq_square)
  also have "\<dots> = bisect_loop ?f (35 / 8) 5 3 (35 / 8)"
    using bisect_loop_step_low [of 2 ?f "15 / 4" 5 3 "15 / 4"]
    by (simp add: solveAffineLambda_f_def power2_eq_square)
  also have "\<dots> = bisect_loop ?f (75 / 16) 5 4 (75 / 16)"
    using bisect_loop_step_low [of 3 ?f "35 / 8" 5 4 "35 / 8"]
    by (simp add: solveAffineLambda_f_def power2_eq_square)
  also have "\<dots> = bisect_loop ?f (75 / 16) (155 / 32) 5 (155 / 32)"
    using bisect_loop_step_high [of 4 ?f "75 / 16" 5 5 "75 / 16"]
    by (simp add: solveAffineLambda_f_def power2_eq_square)
  finally show ?thesis .
qed

lemma canonical_lambda:
  shows canonical_lambda_lower: "15 / 16 \<le> solveAffineLambda (1 / 5) 5"
    and canonical_lambda_upper: "solveAffineLambda (1 / 5) 5 \<le> 31 / 32"
proof -
  let ?f = "solveAffineLambda_f (1 / 5) 5"
  let ?m = "snd (snd (snd (bisect_loop ?f 0 5 0 0)))"
  have nf: "\<not> ?f 0 * ?f 5 > 0" by (simp add: solveAffineLambda_f_def)
  have "75 / 16 \<le> snd (snd (snd (bisect_loop ?f (75 / 16) (155 / 32) 5 (155 / 32))))"
    by (rule bisect_loop_above) simp_all
  then have lo: "75 / 16 \<le> ?m" by (simp only: canonical_bisection_steps)
  have "snd (snd (snd (bisect_loop ?f (75 / 16) (155 / 32) 5 (155 / 32)))) \<le> 155 / 32"
    by (rule bisect_loop_le) simp_all
  then have hi: "?m \<le> 155 / 32" by (simp only: canonical_bisection_steps)
  have eq: "solveAffineLambda (1 / 5) 5 = ?m / 5"
    using nf by (simp add: solveAffineLambda_unfold)
  show "15 / 16 \<le> solveAffineLambda (1 / 5) 5" unfolding eq using lo by simp
  show "solveAffineLambda (1 / 5) 5 \<le> 31 / 32" unfolding eq using hi by simp
qed

text \<open>
  C1. For \<open>k = 0.2\<close> and \<open>sigma = 5\<close> the \<open>lambda\<close> returned by \<open>calculateCosts\<close> is
  the one of \<open>solveAffineLambda\<close>, and it is at least \<open>15/16\<close>: the bisection moves to
  the root near \<open>t = 4.79\<close>, so \<open>lambda\<close> is not a small value.
\<close>
theorem canonical_lambda_not_small:
  "map_option lambda (calculateCosts (1 / 5) 5) = Some (solveAffineLambda (1 / 5) 5)
   \<and> 15 / 16 \<le> solveAffineLambda (1 / 5) 5"
proof -
  from calculateCosts_returns [of "1 / 5" 5] obtain r where
    "calculateCosts (1 / 5) 5 = Some r" "lambda r = solveAffineLambda (1 / 5) 5" by force
  then show ?thesis using canonical_lambda_lower by simp
qed

text \<open>
  C1, as amended. For \<open>k = 0.2\<close> and \<open>sigma = 5\<close>, \<open>calculateCosts\<close> returns
  \<open>nonlinCost\<close> strictly less than \<open>affineCost\<close>, with \<open>lambda\<close> between \<open>15/16\<close> and
  \<open>31/32\<close>.
\<close>

theorem canonical_scenario:
  "\<exists>r. calculateCosts (1 / 5) 5 = Some r \<and> nonlinCost r < affineCost r
       \<and> 15 / 16 \<le> lambda r \<and> lambda r \<le> 31 / 32"
proof -
  let ?lam = "solveAffineLambda (1 / 5) 5"
  from calculateCosts_returns [of "1 / 5" 5] obtain r where
    r: "calculateCosts (1 / 5) 5 = Some r" "lambda r = ?lam"
       "affineCost r = (1 / 5 * (1 / 5) * 5 * 5 * (1 - ?lam) ^ 2) +
               (5 * 5 * ?lam * ?lam) / (1 + 5 * 5 * ?lam * ?lam)"
       "nonlinCost r = 2 * (1 / 5) * (1 / 5) * 5 * 5 * (1 - sqrt (2 / pi)) + calculateH 5"
    by force
  have "nonlinCost r = 2 * (1 - sqrt (2 / pi)) + calculateH 5"
    using r(4) by simp
  then have n: "nonlinCost r < 24 / 25"
    using nonlinCost_canonical_upper by simp
  have "affineCost r = (1 - ?lam) ^ 2 + (25 * ?lam * ?lam) / (1 + 25 * ?lam * ?lam)"
    using r(3) by simp
  then have a: "24 / 25 \<le> affineCost r"
    using affineCost_canonical_lower [of ?lam] by simp
  from n a have less: "nonlinCost r < affineCost r" by linarith
  have lo: "15 / 16 \<le> lambda r" unfolding r(2) by (rule canonical_lambda_lower)
  have hi: "lambda r \<le> 31 / 32" unfolding r(2) by (rule canonical_lambda_upper)
  from r(1) less lo hi show ?thesis by blast
qed


section \<open>The lookup layer: indices, bounds check, fallback\<close>

lemma Math_round_round: "Math_round x = round x"
  by (simp add: Math_round_def round_def)

text \<open>
  C10. For a table whose rows all have \<open>cols\<close> cells and whose two steps are not 0,
  the lookup computes \<open>kIdx = round ((k - k.min) / k.step)\<close> and
  \<open>sIdx = round ((sigma - sigma.min) / sigma.step)\<close>; when both lie inside the table it
  returns the cell \<open>data[kIdx][sIdx]\<close> with its \<open>isCounterExample\<close> flag, and when one
  of them falls outside it returns the all-zero fallback.
\<close>
theorem results_lookup:
  assumes "axis_step (metadata_k cd) \<noteq> 0" and "axis_step (metadata_sigma cd) \<noteq> 0"
    and "\<forall>row \<in> set (data cd). length row = cols"
    and "kIdx = round ((k - axis_min (metadata_k cd)) / axis_step (metadata_k cd))"
    and "sIdx = round ((sigma - axis_min (metadata_sigma cd)) / axis_step (metadata_sigma cd))"
  shows
    "getKIndex cd k = Some kIdx \<and> getSigmaIndex cd sigma = Some sIdx \<and>
     results cd k sigma =
       (if 0 \<le> kIdx \<and> kIdx < int (length (data cd)) \<and> 0 \<le> sIdx \<and> sIdx < int cols
        then Inr \<lparr>lambda = lambda (data cd ! nat kIdx ! nat sIdx),
                  affineCost = affineCost (data cd ! nat kIdx ! nat sIdx),
                  nonlinCost = nonlinCost (data cd ! nat kIdx ! nat sIdx),
                  lowerBound = lowerBound (data cd ! nat kIdx ! nat sIdx),
                  isCounterExample = (nonlinCost (data cd ! nat kIdx ! nat sIdx)
                                       < affineCost (data cd ! nat kIdx ! nat sIdx))\<rparr>
        else Inr \<lparr>lambda = 0, affineCost = 0, nonlinCost = 0, lowerBound = 0,
                  isCounterExample = False\<rparr>)"
proof -
  have K: "getKIndex cd k = Some kIdx"
    using assms(1,4) by (simp add: getKIndex_def Let_def Math_round_round)
  have S: "getSigmaIndex cd sigma = Some sIdx"
    using assms(2,5) by (simp add: getSigmaIndex_def Let_def Math_round_round)
  have R: "results cd k sigma =
             (if 0 \<le> kIdx \<and> kIdx < int (length (data cd)) \<and> 0 \<le> sIdx \<and> sIdx < int cols
              then Inr \<lparr>lambda = lambda (data cd ! nat kIdx ! nat sIdx),
                     affineCost = affineCost (data cd ! nat kIdx ! nat sIdx),
                     nonlinCost = nonlinCost (data cd ! nat kIdx ! nat sIdx),
                     lowerBound = lowerBound (data cd ! nat kIdx ! nat sIdx),
                     isCounterExample = (nonlinCost (data cd ! nat kIdx ! nat sIdx)
                                          < affineCost (data cd ! nat kIdx ! nat sIdx))\<rparr>
              else Inr fallback)"
  proof (cases "0 \<le> kIdx \<and> kIdx < int (length (data cd))")
    case False
    then show ?thesis using K S by (auto simp: results_def)
  next
    case True
    then have "nat kIdx < length (data cd)" and "0 < length (data cd)" by auto
    then have "data cd ! nat kIdx \<in> set (data cd)" and "data cd ! 0 \<in> set (data cd)"
      by (auto intro: nth_mem)
    with assms(3) have len: "length (data cd ! nat kIdx) = cols" "length (data cd ! 0) = cols"
      by auto
    show ?thesis
      using K S True len by (auto simp: results_def Let_def)
  qed
  from K S R show ?thesis by (simp add: fallback_def)
qed

theorem results_lookup_witness:
  "results example_table 5 0 =
     Inr \<lparr>lambda = 0, affineCost = 0, nonlinCost = 0, lowerBound = 0, isCounterExample = False\<rparr> \<and>
   results example_table 0 0 =
     Inr \<lparr>lambda = 0, affineCost = 2, nonlinCost = 1, lowerBound = 0, isCounterExample = True\<rparr>"
proof -
  have steps: "axis_step (metadata_k example_table) \<noteq> 0"
      "axis_step (metadata_sigma example_table) \<noteq> 0"
    and rect: "\<forall>row \<in> set (data example_table). length row = 1"
    by (simp_all add: example_table_def)
  have out: "5 = round ((5 - axis_min (metadata_k example_table))
                          / axis_step (metadata_k example_table))"
    and zk: "0 = round ((0 - axis_min (metadata_k example_table))
                          / axis_step (metadata_k example_table))"
    and zs: "0 = round ((0 - axis_min (metadata_sigma example_table))
                          / axis_step (metadata_sigma example_table))"
    by (simp_all add: example_table_def)
  from results_lookup [OF steps rect out zs] results_lookup [OF steps rect zk zs]
  show ?thesis by (simp add: example_table_def)
qed

end
